theory Spec2Isabelle
  imports Complex_Main
begin

section \<open>The generator's data\<close>

text \<open>
  The class \<open>Minesweeper\<close> of \<open>src/Minesweeper.ts\<close> is a record of its fields; its methods
  are functions taking the generator and returning the updated one. JavaScript numbers are
  modelled as \<open>int\<close> (fractional values and \<open>NaN\<close> are outside the model), strings as
  \<open>string\<close>. Indices and counters stay far below \<open>2^53\<close>, where the arithmetic of doubles is
  exact; the two products that \<open>start\<close> compares can lie above it and are rounded as a double
  rounds them, see \<open>number\<close>. A \<open>SafeCell\<close> \<open>{x, y}\<close> is the pair \<open>(x, y)\<close>: row first, column
  second.
\<close>

type_synonym SafeCell = "int \<times> int"

datatype ReturnType = Emoji | Code | Matrix

record CellTypes =
  mine :: string
  numbers :: "string list"

text \<open>
  \<open>MinesweeperOpts\<close>: every property is optional. \<open>opt_rng\<close> is not declared by the
  interface; it is the property \<open>rng\<close> that the test "should use custom RNG function"
  passes to the constructor.
\<close>

record MinesweeperOpts =
  opt_rows :: "int option"
  opt_columns :: "int option"
  opt_mines :: "int option"
  opt_emote :: "string option"
  opt_revealFirstCell :: "bool option"
  opt_zeroFirstCell :: "bool option"
  opt_spaces :: "bool option"
  opt_returnType :: "ReturnType option"
  opt_rng :: "rat list option"

record Minesweeper =
  rows :: int
  columns :: int
  mines :: int
  emote :: string
  spaces :: bool
  revealFirstCell :: bool
  zeroFirstCell :: bool
  safeCells :: "SafeCell list"
  returnType :: ReturnType
  types :: CellTypes
  matrix :: "string list list"

text \<open>
  What a method can do instead of returning. \<open>TypeError\<close> and \<open>RangeError\<close> are the
  exceptions JavaScript throws (a property read of \<open>undefined\<close>, \<open>new Array\<close> of an invalid
  length). The other two are outcomes of the model: \<open>OutOfRandom\<close> when the list of numbers
  standing for the results of \<open>Math.random()\<close> is used up before the method is done, and
  \<open>SparseArray\<close> when an assignment lands outside a row, where JavaScript would extend the
  array with holes that a \<open>string list\<close> cannot hold.
\<close>

datatype error = TypeError | RangeError | OutOfRandom | SparseArray

datatype outcome = Null | Str string | Grid "string list list"

section \<open>Strings and array accesses\<close>

text \<open>\<open>str.includes(p)\<close>: \<open>p\<close> occurs in \<open>str\<close> as a contiguous substring.\<close>

fun includesStr :: "string \<Rightarrow> string \<Rightarrow> bool" where
  "includesStr [] p = (p = [])"
| "includesStr (c # cs) p = (take (length p) (c # cs) = p \<or> includesStr cs p)"

text \<open>\<open>str.slice(2, -2)\<close>: the characters from index 2 up to, not including, index \<open>length - 2\<close>.\<close>

definition slice :: "string \<Rightarrow> string" where
  "slice s = drop 2 (take (length s - 2) s)"

text \<open>\<open>arr.join(sep)\<close> on an array of strings.\<close>

fun join :: "string \<Rightarrow> string list \<Rightarrow> string" where
  "join sep [] = []"
| "join sep [s] = s"
| "join sep (s # t # ss) = s @ sep @ join sep (t # ss)"

text \<open>\<open>arr[i]\<close>: \<open>undefined\<close> (here \<open>None\<close>) outside the array.\<close>

definition elemAt :: "'a list \<Rightarrow> int \<Rightarrow> 'a option" where
  "elemAt xs i = (if 0 \<le> i \<and> i < int (length xs) then Some (xs ! nat i) else None)"

text \<open>\<open>m[i][j] = v\<close> for a position inside the grid.\<close>

definition setCell :: "string list list \<Rightarrow> int \<Rightarrow> int \<Rightarrow> string \<Rightarrow> string list list" where
  "setCell m i j v = m[nat i := (m ! nat i)[nat j := v]]"

text \<open>\<open>Math.floor(r * n)\<close> for a result \<open>r\<close> of \<open>Math.random()\<close>, in exact arithmetic.\<close>

definition randomIndex :: "rat \<Rightarrow> int \<Rightarrow> int" where
  "randomIndex r n = \<lfloor>r * of_int n\<rfloor>"

section \<open>Numbers\<close>

text \<open>The number of binary digits of a positive integer.\<close>

function bitLength :: "int \<Rightarrow> nat" where
  "bitLength n = (if n \<le> 0 then 0 else Suc (bitLength (n div 2)))"
  by pat_completeness auto
termination
  by (relation "measure nat") auto

text \<open>
  A double has 53 significant binary digits. From \<open>2^53\<close> on, the doubles nearest to \<open>a\<close> are
  the multiples of \<open>ulp a\<close>; \<open>rounded a\<close> is the nearest of them, the one with the even
  multiplier when \<open>a\<close> lies halfway between two.
\<close>

definition ulp :: "int \<Rightarrow> int" where
  "ulp a = 2 ^ (bitLength a - 53)"

definition rounded :: "int \<Rightarrow> int" where
  "rounded a =
     (let u = ulp a; q = a div u; r = a mod u
      in (if 2 * r < u \<or> (2 * r = u \<and> even q) then q else q + 1) * u)"

text \<open>
  The double nearest to an integer \<open>a \<ge> 0\<close>. Every integer below \<open>2^53\<close> is a double. What
  rounds to \<open>2^1024\<close> or more is \<open>Infinity\<close>, for which \<open>2^1024\<close> stands: it is above every
  double, and \<open>Infinity <= Infinity\<close> holds.
\<close>

definition nearest :: "int \<Rightarrow> int" where
  "nearest a = (if a < 2 ^ 53 then a else min (rounded a) (2 ^ 1024))"

text \<open>
  The value of an arithmetic expression of the source whose exact value is the integer \<open>n\<close>:
  \<open>this.rows * this.columns\<close> evaluates to \<open>number (rows * columns)\<close>.
\<close>

definition number :: "int \<Rightarrow> int" where
  "number n = sgn n * nearest \<bar>n\<bar>"

section \<open>Construction\<close>

definition spoilerizeWith :: "bool \<Rightarrow> string \<Rightarrow> string" where
  "spoilerizeWith sp str = (if sp then ''|| :'' @ str @ '': ||'' else ''||:'' @ str @ '':||'')"

definition spoilerize :: "Minesweeper \<Rightarrow> string \<Rightarrow> string" where
  "spoilerize g str = spoilerizeWith (spaces g) str"

definition numberNames :: "string list" where
  "numberNames = [''zero'', ''one'', ''two'', ''three'', ''four'', ''five'', ''six'', ''seven'', ''eight'']"

text \<open>\<open>(opts && opts.p) || d\<close>: the default also replaces a falsy value (\<open>0\<close>, \<open>""\<close>).\<close>

definition orNumber :: "int option \<Rightarrow> int \<Rightarrow> int" where
  "orNumber v d = (case v of None \<Rightarrow> d | Some n \<Rightarrow> if n = 0 then d else n)"

definition orString :: "string option \<Rightarrow> string \<Rightarrow> string" where
  "orString v d = (case v of None \<Rightarrow> d | Some s \<Rightarrow> if s = [] then d else s)"

text \<open>\<open>opts && opts.p !== undefined ? opts.p : d\<close>, and \<open>||\<close> on a value that is never falsy.\<close>

definition orElse :: "'a option \<Rightarrow> 'a \<Rightarrow> 'a" where
  "orElse v d = (case v of None \<Rightarrow> d | Some b \<Rightarrow> b)"

definition constructor :: "MinesweeperOpts option \<Rightarrow> Minesweeper" where
  "constructor opts =
     (let sp = orElse (Option.bind opts opt_spaces) True;
          em = orString (Option.bind opts opt_emote) ''boom''
      in \<lparr> rows = orNumber (Option.bind opts opt_rows) 9,
           columns = orNumber (Option.bind opts opt_columns) 9,
           mines = orNumber (Option.bind opts opt_mines) 10,
           emote = em,
           spaces = sp,
           revealFirstCell = orElse (Option.bind opts opt_revealFirstCell) False,
           zeroFirstCell = orElse (Option.bind opts opt_zeroFirstCell) True,
           safeCells = [],
           returnType = orElse (Option.bind opts opt_returnType) Emoji,
           types = \<lparr> mine = spoilerizeWith sp em,
                     numbers = map (spoilerizeWith sp) numberNames \<rparr>,
           matrix = [] \<rparr>)"

section \<open>Grid initialization and mine placement\<close>

text \<open>The loop of \<open>generateEmptyMatrix\<close>: \<open>i\<close> runs from its start value up to \<open>rows - 1\<close>.\<close>

function generateRows :: "int \<Rightarrow> Minesweeper \<Rightarrow> error + Minesweeper" where
  "generateRows i g =
     (if i < rows g then
        if columns g < 0 \<or> 2 ^ 32 \<le> columns g then Inl RangeError
        else generateRows (i + 1)
               (g\<lparr>matrix := matrix g @ [replicate (nat (columns g)) (numbers (types g) ! 0)]\<rparr>)
      else Inr g)"
  by pat_completeness auto
termination
  by (relation "measure (\<lambda>(i, g). nat (rows g - i))") auto

definition generateEmptyMatrix :: "Minesweeper \<Rightarrow> error + Minesweeper" where
  "generateEmptyMatrix g = generateRows 0 g"

text \<open>
  The loop of \<open>plantMines\<close>, with the numbers \<open>Math.random()\<close> returns taken from a list.
  On a cell that is a mine already the source decrements \<open>i\<close> and the loop header increments
  it again, so \<open>i\<close> stays.
\<close>

fun plantFrom :: "int \<Rightarrow> Minesweeper \<Rightarrow> rat list \<Rightarrow> error + (Minesweeper \<times> rat list)" where
  "plantFrom i g ds =
     (if i < mines g then
        (case ds of
           r1 # r2 # rest \<Rightarrow>
             (let x = randomIndex r1 (rows g); y = randomIndex r2 (columns g)
              in case elemAt (matrix g) x of
                   None \<Rightarrow> Inl TypeError
                 | Some row \<Rightarrow>
                     (case elemAt row y of
                        None \<Rightarrow> Inl SparseArray
                      | Some c \<Rightarrow>
                          if c = mine (types g) then plantFrom i g rest
                          else plantFrom (i + 1)
                                 (g\<lparr>matrix := setCell (matrix g) x y (mine (types g))\<rparr>) rest))
         | _ \<Rightarrow> Inl OutOfRandom)
      else Inr (g, ds))"

definition plantMines :: "Minesweeper \<Rightarrow> rat list \<Rightarrow> error + (Minesweeper \<times> rat list)" where
  "plantMines g ds = plantFrom 0 g ds"

section \<open>Neighbor annotation\<close>

text \<open>
  One summand of the counter of \<open>getNumberOfMines\<close>, \<open>+(cond && this.matrix[i][j] === mine)\<close>:
  the cell is read only when \<open>cond\<close> holds, and reading a row that does not exist throws.
\<close>

definition probe :: "Minesweeper \<Rightarrow> bool \<Rightarrow> int \<Rightarrow> int \<Rightarrow> error + nat" where
  "probe g cond i j =
     (if cond then
        (case elemAt (matrix g) i of
           None \<Rightarrow> Inl TypeError
         | Some row \<Rightarrow> Inr (if elemAt row j = Some (mine (types g)) then 1 else 0))
      else Inr 0)"

text \<open>The eight summands in the order of the source, stopping at the first exception.\<close>

fun addProbes :: "Minesweeper \<Rightarrow> (bool \<times> int \<times> int) list \<Rightarrow> nat \<Rightarrow> error + nat" where
  "addProbes g [] counter = Inr counter"
| "addProbes g ((cond, i, j) # ps) counter =
     (case probe g cond i j of
        Inl e \<Rightarrow> Inl e
      | Inr n \<Rightarrow> addProbes g ps (counter + n))"

definition getNumberOfMines :: "Minesweeper \<Rightarrow> int \<Rightarrow> int \<Rightarrow> error + (string \<times> Minesweeper)" where
  "getNumberOfMines g x y =
     (case elemAt (matrix g) x of
        None \<Rightarrow> Inl TypeError
      | Some row \<Rightarrow>
          if elemAt row y = Some (mine (types g)) then Inr (mine (types g), g)
          else
            (let g' = g\<lparr>safeCells := safeCells g @ [(x, y)]\<rparr>;
                 hasLeft = (y > 0);
                 hasRight = (y < columns g - 1);
                 hasTop = (x > 0);
                 hasBottom = (x < rows g - 1)
             in case addProbes g'
                       [(hasTop \<and> hasLeft, x - 1, y - 1),
                        (hasTop, x - 1, y),
                        (hasTop \<and> hasRight, x - 1, y + 1),
                        (hasLeft, x, y - 1),
                        (hasRight, x, y + 1),
                        (hasBottom \<and> hasLeft, x + 1, y - 1),
                        (hasBottom, x + 1, y),
                        (hasBottom \<and> hasRight, x + 1, y + 1)] 0 of
                  Inl e \<Rightarrow> Inl e
                | Inr counter \<Rightarrow> Inr (numbers (types g') ! counter, g')))"

text \<open>
  \<open>populate\<close>: \<open>row.map((col, y) => ...)\<close> inside \<open>this.matrix.map((row, x) => ...)\<close>. The calls
  read the old \<open>this.matrix\<close>, which is replaced only when the outer \<open>map\<close> is done; the
  registry grows during the traversal.
\<close>

fun populateRow :: "Minesweeper \<Rightarrow> int \<Rightarrow> int \<Rightarrow> string list \<Rightarrow> error + (string list \<times> Minesweeper)" where
  "populateRow g x y [] = Inr ([], g)"
| "populateRow g x y (col # cols) =
     (case getNumberOfMines g x y of
        Inl e \<Rightarrow> Inl e
      | Inr (v, g1) \<Rightarrow>
          (case populateRow g1 x (y + 1) cols of
             Inl e \<Rightarrow> Inl e
           | Inr (vs, g2) \<Rightarrow> Inr (v # vs, g2)))"

fun populateRows :: "Minesweeper \<Rightarrow> int \<Rightarrow> string list list \<Rightarrow> error + (string list list \<times> Minesweeper)" where
  "populateRows g x [] = Inr ([], g)"
| "populateRows g x (row # rws) =
     (case populateRow g x 0 row of
        Inl e \<Rightarrow> Inl e
      | Inr (r, g1) \<Rightarrow>
          (case populateRows g1 (x + 1) rws of
             Inl e \<Rightarrow> Inl e
           | Inr (rs, g2) \<Rightarrow> Inr (r # rs, g2)))"

definition populate :: "Minesweeper \<Rightarrow> error + Minesweeper" where
  "populate g =
     (case populateRows g 0 (matrix g) of
        Inl e \<Rightarrow> Inl e
      | Inr (m, g') \<Rightarrow> Inr (g'\<lparr>matrix := m\<rparr>))"

section \<open>Rendering\<close>

definition getTextRepresentation :: "Minesweeper \<Rightarrow> string" where
  "getTextRepresentation g =
     (let separator = (if spaces g then [CHR '' ''] else [])
      in join [CHR 0x0A] (map (join separator) (matrix g)))"

section \<open>Flood fill\<close>

definition isSpoiler :: "string \<Rightarrow> bool" where
  "isSpoiler s = includesStr s ''||''"

text \<open>
  The two nested \<open>for\<close> loops of \<open>revealSurroundings\<close> visit the cells of the clipped 3 by 3
  block row by row.
\<close>

definition block :: "Minesweeper \<Rightarrow> SafeCell \<Rightarrow> SafeCell list" where
  "block g c =
     (let xLower = max 0 (fst c - 1);
          yLower = max 0 (snd c - 1);
          xUpper = min (rows g - 1) (fst c + 1);
          yUpper = min (columns g - 1) (snd c + 1)
      in concat (map (\<lambda>i. map (\<lambda>j. (i, j)) [yLower..yUpper]) [xLower..xUpper]))"

text \<open>
  The loop body over the cells still to visit; \<open>zeroCells\<close> collects the masked zero cells
  in the order they are met.
\<close>

fun revealBlock :: "Minesweeper \<Rightarrow> SafeCell list \<Rightarrow> SafeCell list \<Rightarrow> error + (Minesweeper \<times> SafeCell list)" where
  "revealBlock g zeroCells [] = Inr (g, zeroCells)"
| "revealBlock g zeroCells ((i, j) # todo) =
     (case elemAt (matrix g) i of
        None \<Rightarrow> Inl TypeError
      | Some row \<Rightarrow>
          (case elemAt row j of
             None \<Rightarrow> Inl TypeError
           | Some s \<Rightarrow>
               if isSpoiler s then
                 revealBlock (g\<lparr>matrix := setCell (matrix g) i j (slice s)\<rparr>)
                   (if s = numbers (types g) ! 0 then zeroCells @ [(i, j)] else zeroCells) todo
               else revealBlock g zeroCells todo))"

text \<open>The sum of the lengths of all cells: every unmasking shortens a cell.\<close>

definition weight :: "string list list \<Rightarrow> nat" where
  "weight m = sum_list (map (\<lambda>row. sum_list (map length row)) m)"

text \<open>
  \<open>revealSurroundings(c, recurse)\<close>; \<open>revealEach g zs\<close> is its last statement,
  \<open>zeroCells.forEach((c) => this.revealSurroundings(c, true))\<close>.
\<close>

function revealSurroundings :: "Minesweeper \<Rightarrow> SafeCell \<Rightarrow> bool \<Rightarrow> error + Minesweeper"
  and revealEach :: "Minesweeper \<Rightarrow> SafeCell list \<Rightarrow> error + Minesweeper" where
  "revealSurroundings g c recurse =
     (case revealBlock g [] (block g c) of
        Inl e \<Rightarrow> Inl e
      | Inr (g', zeroCells) \<Rightarrow> if recurse then revealEach g' zeroCells else Inr g')"
| "revealEach g [] = Inr g"
| "revealEach g (z # zs) =
     (case revealSurroundings g z True of
        Inl e \<Rightarrow> Inl e
      | Inr g' \<Rightarrow> revealEach g' zs)"
  by pat_completeness auto

text \<open>
  The recursion ends on every grid: a sweep never lengthens a cell and shortens each cell it
  records, so twice the weight plus the number of pending seeds goes down.
\<close>

lemma elemAt_Some: "elemAt xs i = Some v \<Longrightarrow> 0 \<le> i \<and> nat i < length xs \<and> xs ! nat i = v"
  by (auto simp: elemAt_def split: if_splits)

lemma sum_list_map_update:
  "k < length xs \<Longrightarrow> sum_list (map f (xs[k := v])) + f (xs ! k) = sum_list (map f xs) + (f v :: nat)"
  by (induction xs arbitrary: k) (auto split: nat.splits)

lemma weight_setCell:
  assumes "elemAt m i = Some row" "elemAt row j = Some s"
  shows "weight (setCell m i j v) + length s = weight m + length v"
proof -
  from assms have i: "nat i < length m" "m ! nat i = row" and j: "nat j < length row" "row ! nat j = s"
    by (auto dest: elemAt_Some)
  have "sum_list (map length (row[nat j := v])) + length s = sum_list (map length row) + length v"
    using sum_list_map_update[OF j(1), of length v] j(2) by simp
  moreover have "weight (setCell m i j v) + sum_list (map length row)
      = weight m + sum_list (map length (row[nat j := v]))"
    using sum_list_map_update[OF i(1), of "\<lambda>r. sum_list (map length r)" "row[nat j := v]"] i(2)
    by (simp add: weight_def setCell_def)
  ultimately show ?thesis by linarith
qed

lemma includesStr_length: "includesStr s p \<Longrightarrow> length p \<le> length s"
proof (induction s)
  case Nil
  then show ?case by simp
next
  case (Cons a s)
  show ?case
  proof (cases "take (length p) (a # s) = p")
    case True
    then have "length (take (length p) (a # s)) = length p" by simp
    then show ?thesis by simp
  next
    case False
    with Cons show ?thesis by simp
  qed
qed

lemma slice_shorter: "isSpoiler s \<Longrightarrow> length (slice s) < length s"
  by (auto simp: isSpoiler_def slice_def dest: includesStr_length)

lemma revealBlock_weight:
  "revealBlock g zs todo = Inr (g', zs') \<Longrightarrow>
     weight (matrix g') + length zs' \<le> weight (matrix g) + length zs"
proof (induction g zs todo rule: revealBlock.induct)
  case (1 g zeroCells)
  then show ?case by simp
next
  case (2 g zeroCells i j todo)
  show ?case
  proof (cases "elemAt (matrix g) i")
    case None
    with 2 show ?thesis by simp
  next
    case (Some row)
    show ?thesis
    proof (cases "elemAt row j")
      case None
      with 2 Some show ?thesis by simp
    next
      case (Some s)
      note s = this and row = \<open>elemAt (matrix g) i = Some row\<close>
      show ?thesis
      proof (cases "isSpoiler s")
        case True
        let ?g = "g\<lparr>matrix := setCell (matrix g) i j (slice s)\<rparr>"
        let ?zs = "if s = numbers (types g) ! 0 then zeroCells @ [(i, j)] else zeroCells"
        from 2 row s True have "revealBlock ?g ?zs todo = Inr (g', zs')" by simp
        from "2.IH"(1)[OF row s True this]
        have "weight (matrix g') + length zs' \<le> weight (matrix ?g) + length ?zs" .
        moreover have "weight (matrix ?g) + length s = weight (matrix g) + length (slice s)"
          using weight_setCell[OF row s] by simp
        moreover have "length (slice s) < length s" using True by (rule slice_shorter)
        ultimately show ?thesis by (auto split: if_splits)
      next
        case False
        with 2 row s show ?thesis by simp
      qed
    qed
  qed
qed

lemma reveal_weight_partial:
  "revealSurroundings_revealEach_dom (Inl (g, c, r)) \<Longrightarrow>
     \<forall>g'. revealSurroundings g c r = Inr g' \<longrightarrow> weight (matrix g') \<le> weight (matrix g)"
  "revealSurroundings_revealEach_dom (Inr (g, zs)) \<Longrightarrow>
     \<forall>g'. revealEach g zs = Inr g' \<longrightarrow> weight (matrix g') \<le> weight (matrix g)"
proof (induction g c r and g zs rule: revealSurroundings_revealEach.pinduct)
  case (1 g c recurse)
  show ?case
  proof (intro allI impI)
    fix g' assume r: "revealSurroundings g c recurse = Inr g'"
    from r 1(1) obtain g1 zs where b: "revealBlock g [] (block g c) = Inr (g1, zs)"
      by (auto simp: revealSurroundings.psimps split: sum.splits)
    from revealBlock_weight[OF b] have w: "weight (matrix g1) \<le> weight (matrix g)" by simp
    show "weight (matrix g') \<le> weight (matrix g)"
    proof (cases recurse)
      case True
      with r 1(1) b have "revealEach g1 zs = Inr g'" by (simp add: revealSurroundings.psimps)
      with 1(2)[OF b refl True] w show ?thesis by auto
    next
      case False
      with r 1(1) b show ?thesis using w by (simp add: revealSurroundings.psimps)
    qed
  qed
next
  case (2 g)
  then show ?case by (simp add: revealEach.psimps)
next
  case (3 g z zs)
  show ?case
  proof (intro allI impI)
    fix g' assume r: "revealEach g (z # zs) = Inr g'"
    from r 3(1) obtain g1 where a: "revealSurroundings g z True = Inr g1" and b: "revealEach g1 zs = Inr g'"
      by (auto simp: revealEach.psimps split: sum.splits)
    from 3(2) a 3(3)[OF a] b show "weight (matrix g') \<le> weight (matrix g)" by fastforce
  qed
qed

termination revealSurroundings
proof (relation "measure (\<lambda>a. case a of
           Inl (g, c, r) \<Rightarrow> 2 * weight (matrix g) + 1
         | Inr (g, zs) \<Rightarrow> 2 * weight (matrix g) + 2 * length zs)", goal_cases)
  case 1
  then show ?case by simp
next
  case (2 g c recurse x2 x y)
  then show ?case using revealBlock_weight[of g "[]" "block g c" x y] by auto
next
  case (3 g z zs)
  then show ?case by simp
next
  case (4 g z zs x2)
  then show ?case using reveal_weight_partial(1)[of g z True] by simp
qed

section \<open>Initial reveal\<close>

text \<open>
  \<open>safeCells.filter((c) => this.matrix[c.x][c.y] === this.types.numbers[0])\<close>, the elements
  tested from first to last.
\<close>

fun filterZero :: "Minesweeper \<Rightarrow> SafeCell list \<Rightarrow> error + SafeCell list" where
  "filterZero g [] = Inr []"
| "filterZero g (c # cs) =
     (case elemAt (matrix g) (fst c) of
        None \<Rightarrow> Inl TypeError
      | Some row \<Rightarrow>
          (case filterZero g cs of
             Inl e \<Rightarrow> Inl e
           | Inr zs \<Rightarrow> Inr (if elemAt row (snd c) = Some (numbers (types g) ! 0) then c # zs else zs)))"

text \<open>
  The statements both branches of \<open>revealFirst\<close> share: \<open>safeCell\<close> is the element picked
  from the array (\<open>None\<close> when the index is outside it), its coordinates are read, and the
  cell there loses its first two and last two characters.
\<close>

definition unmask :: "Minesweeper \<Rightarrow> SafeCell option \<Rightarrow> error + Minesweeper" where
  "unmask g safeCell =
     (case safeCell of
        None \<Rightarrow> Inl TypeError
      | Some c \<Rightarrow>
          (case elemAt (matrix g) (fst c) of
             None \<Rightarrow> Inl TypeError
           | Some row \<Rightarrow>
               (case elemAt row (snd c) of
                  None \<Rightarrow> Inl TypeError
                | Some cell \<Rightarrow> Inr (g\<lparr>matrix := setCell (matrix g) (fst c) (snd c) (slice cell)\<rparr>))))"

definition revealFirst :: "Minesweeper \<Rightarrow> rat list \<Rightarrow> error + (SafeCell \<times> Minesweeper \<times> rat list)" where
  "revealFirst g ds =
     (if \<not> revealFirstCell g then Inr ((- 1, - 1), g, ds)
      else
        (case filterZero g (safeCells g) of
           Inl e \<Rightarrow> Inl e
         | Inr zeroCells \<Rightarrow>
             (case ds of
                [] \<Rightarrow> Inl OutOfRandom
              | r # rest \<Rightarrow>
                  if zeroFirstCell g \<and> length zeroCells > 0 then
                    (let safeCell = elemAt zeroCells (randomIndex r (int (length zeroCells)))
                     in case unmask g safeCell of
                          Inl e \<Rightarrow> Inl e
                        | Inr g1 \<Rightarrow>
                            (case revealSurroundings g1 (the safeCell) True of
                               Inl e \<Rightarrow> Inl e
                             | Inr g2 \<Rightarrow> Inr (the safeCell, g2, rest)))
                  else
                    (let safeCell = elemAt (safeCells g) (randomIndex r (int (length (safeCells g))))
                     in case unmask g safeCell of
                          Inl e \<Rightarrow> Inl e
                        | Inr g1 \<Rightarrow> Inr (the safeCell, g1, rest)))))"

section \<open>The entry point\<close>

definition start :: "Minesweeper \<Rightarrow> rat list \<Rightarrow> error + (outcome \<times> Minesweeper \<times> rat list)" where
  "start g ds =
     (if number (rows g * columns g) \<le> number (mines g * 2) then Inr (Null, g, ds)
      else
        (case generateEmptyMatrix g of
           Inl e \<Rightarrow> Inl e
         | Inr g1 \<Rightarrow>
             (case plantMines g1 ds of
                Inl e \<Rightarrow> Inl e
              | Inr (g2, ds2) \<Rightarrow>
                  (case populate g2 of
                     Inl e \<Rightarrow> Inl e
                   | Inr g3 \<Rightarrow>
                       (case revealFirst g3 ds2 of
                          Inl e \<Rightarrow> Inl e
                        | Inr (c, g4, ds4) \<Rightarrow>
                            Inr (case returnType g4 of
                                   Emoji \<Rightarrow> Str (getTextRepresentation g4)
                                 | Code \<Rightarrow> Str (''```'' @ getTextRepresentation g4 @ ''```'')
                                 | Matrix \<Rightarrow> Grid (matrix g4),
                                 g4, ds4))))))"

section \<open>Notions the properties are stated with\<close>

text \<open>The cell at a coordinate, \<open>None\<close> outside the grid.\<close>

definition cellAt :: "string list list \<Rightarrow> SafeCell \<Rightarrow> string option" where
  "cellAt m p = (case elemAt m (fst p) of None \<Rightarrow> None | Some row \<Rightarrow> elemAt row (snd p))"

definition inGrid :: "Minesweeper \<Rightarrow> SafeCell \<Rightarrow> bool" where
  "inGrid g p = (0 \<le> fst p \<and> fst p < rows g \<and> 0 \<le> snd p \<and> snd p < columns g)"

text \<open>The grid has \<open>rows\<close> rows of \<open>columns\<close> cells each.\<close>

definition rectangular :: "Minesweeper \<Rightarrow> bool" where
  "rectangular g =
     (int (length (matrix g)) = rows g \<and> (\<forall>row \<in> set (matrix g). int (length row) = columns g))"

text \<open>The symbol table is the one the constructor derives from \<open>emote\<close> and \<open>spaces\<close>.\<close>

definition built :: "Minesweeper \<Rightarrow> bool" where
  "built g = (types g = \<lparr> mine = spoilerize g (emote g), numbers = map (spoilerize g) numberNames \<rparr>)"

text \<open>The eight neighbours of a coordinate, and the number of mines among those inside the grid.\<close>

definition neighbours :: "SafeCell \<Rightarrow> SafeCell list" where
  "neighbours p =
     (let x = fst p; y = snd p
      in [(x - 1, y - 1), (x - 1, y), (x - 1, y + 1), (x, y - 1), (x, y + 1),
          (x + 1, y - 1), (x + 1, y), (x + 1, y + 1)])"

definition mineAt :: "Minesweeper \<Rightarrow> SafeCell \<Rightarrow> bool" where
  "mineAt g p = (cellAt (matrix g) p = Some (mine (types g)))"

definition mineCount :: "Minesweeper \<Rightarrow> SafeCell \<Rightarrow> nat" where
  "mineCount g p = length (filter (\<lambda>q. inGrid g q \<and> mineAt g q) (neighbours p))"

section \<open>Basic facts\<close>

declare generateRows.simps [simp del] plantFrom.simps [simp del] bitLength.simps [simp del]

subsection \<open>Rounding to a double\<close>

text \<open>
  Small integers are kept; \<open>2^53 + 1\<close> lies halfway between two doubles and goes to the one
  with the even multiplier, as does \<open>94906267 * 94906267\<close>.
\<close>

lemma number_examples:
  "number 4 = 4" "number (- 7) = - 7" "number (2 ^ 53 + 1) = 2 ^ 53" "number (2 ^ 53 + 3) = 2 ^ 53 + 4"
  "number (94906267 * 94906267) = 9007199515875288" "number (4503599757937644 * 2) = 9007199515875288"
  by code_simp+


















subsection \<open>Arrays and grids\<close>

lemma elemAt_eq_Some: "elemAt xs i = Some v \<longleftrightarrow> 0 \<le> i \<and> nat i < length xs \<and> xs ! nat i = v"
  by (auto simp: elemAt_def)

lemma elemAt_eq_None: "elemAt xs i = None \<longleftrightarrow> \<not> (0 \<le> i \<and> i < int (length xs))"
  by (auto simp: elemAt_def)

lemma elemAt_in: "0 \<le> i \<Longrightarrow> i < int (length xs) \<Longrightarrow> elemAt xs i = Some (xs ! nat i)"
  by (simp add: elemAt_def)

lemma rectangular_row:
  "rectangular g \<Longrightarrow> elemAt (matrix g) i = Some row \<Longrightarrow> int (length row) = columns g"
  by (auto simp: rectangular_def elemAt_eq_Some)

lemma rectangular_cellAt:
  assumes "rectangular g"
  shows "inGrid g p \<longleftrightarrow> cellAt (matrix g) p \<noteq> None"
proof (cases "0 \<le> fst p \<and> fst p < rows g")
  case False
  with assms have "elemAt (matrix g) (fst p) = None"
    by (auto simp: elemAt_eq_None rectangular_def)
  with False show ?thesis by (auto simp: cellAt_def inGrid_def)
next
  case True
  with assms have "elemAt (matrix g) (fst p) = Some (matrix g ! nat (fst p))"
    by (simp add: elemAt_in rectangular_def)
  moreover from this assms have "int (length (matrix g ! nat (fst p))) = columns g"
    by (rule rectangular_row[rotated])
  ultimately show ?thesis using True
    by (auto simp: cellAt_def inGrid_def elemAt_def)
qed


lemma cellAt_SomeD:
  "cellAt m p = Some s \<Longrightarrow> \<exists>row. elemAt m (fst p) = Some row \<and> elemAt row (snd p) = Some s"
  by (auto simp: cellAt_def split: option.splits)

lemma elemAt_update:
  "elemAt (xs[k := v]) a = (if 0 \<le> a \<and> nat a = k \<and> k < length xs then Some v else elemAt xs a)"
  by (auto simp: elemAt_def)

lemma cellAt_setCell:
  assumes "elemAt m i = Some row" "elemAt row j = Some s"
  shows "cellAt (setCell m i j v) p = (if p = (i, j) then Some v else cellAt m p)"
proof -
  from assms have i: "0 \<le> i" "nat i < length m" "m ! nat i = row"
    and j: "0 \<le> j" "nat j < length row" by (simp_all add: elemAt_eq_Some)
  obtain a b where p: "p = (a, b)" by (cases p)
  show ?thesis
  proof (cases "a = i")
    case True
    have "elemAt (m[nat i := row[nat j := v]]) i = Some (row[nat j := v])"
      using i by (simp add: elemAt_update)
    moreover have "elemAt (row[nat j := v]) b = (if b = j then Some v else elemAt row b)"
      using j by (auto simp: elemAt_update)
    ultimately show ?thesis using True assms(1) i(3)
      by (simp add: p cellAt_def setCell_def)
  next
    case False
    then have "\<not> (0 \<le> a \<and> nat a = nat i \<and> nat i < length m)" using i(1) by auto
    then have "elemAt (m[nat i := row[nat j := v]]) a = elemAt m a"
      by (simp only: elemAt_update if_False)
    then show ?thesis using False i(3) by (simp add: p cellAt_def setCell_def)
  qed
qed

lemma rectangular_setCell:
  "rectangular g \<Longrightarrow> rectangular (g\<lparr>matrix := setCell (matrix g) i j v\<rparr>)"
proof -
  assume r: "rectangular g"
  have "length (((matrix g)[nat i := (matrix g ! nat i)[nat j := v]]) ! k) = length (matrix g ! k)"
    if "k < length (matrix g)" for k
    using that by (cases "k = nat i") auto
  with r show ?thesis
    by (auto simp: rectangular_def setCell_def set_conv_nth)
qed

subsection \<open>The tokens of a built generator\<close>

lemma isSpoiler_spoilerizeWith: "isSpoiler (spoilerizeWith sp n)"
  by (simp add: isSpoiler_def spoilerizeWith_def)

lemma slice_spoilerizeWith:
  "slice (spoilerizeWith sp n) = (if sp then '' :'' @ n @ '': '' else '':'' @ n @ '':'')"
  by (simp add: slice_def spoilerizeWith_def)

lemma spoilerizeWith_inject: "spoilerizeWith sp a = spoilerizeWith sp b \<longleftrightarrow> a = b"
  by (simp add: spoilerizeWith_def)

lemma slice_not_token: "slice (spoilerizeWith sp a) \<noteq> spoilerizeWith sp b"
  unfolding slice_spoilerizeWith by (simp add: spoilerizeWith_def)

lemma distinct_numberNames: "distinct numberNames"
  by (simp add: numberNames_def)

lemma length_numberNames: "length numberNames = 9"
  by (simp add: numberNames_def)

lemma revealed_all:
  "list_all (\<lambda>n. \<not> isSpoiler (slice (spoilerizeWith True n)) \<and> \<not> isSpoiler (slice (spoilerizeWith False n))) numberNames"
  by code_simp

lemma number_revealed_not_spoiler:
  "n \<in> set numberNames \<Longrightarrow> \<not> isSpoiler (slice (spoilerizeWith sp n))"
  using revealed_all by (cases sp) (auto simp: list_all_iff)

lemma built_number:
  "built g \<Longrightarrow> k < 9 \<Longrightarrow> numbers (types g) ! k = spoilerizeWith (spaces g) (numberNames ! k)"
  by (simp add: built_def spoilerize_def length_numberNames)

lemma built_mine: "built g \<Longrightarrow> mine (types g) = spoilerizeWith (spaces g) (emote g)"
  by (simp add: built_def spoilerize_def)

lemma built_constructor: "built (constructor opts)"
  by (simp add: built_def constructor_def spoilerize_def Let_def)

subsection \<open>Grid initialization\<close>

lemma generateRows_result:
  "generateRows i g = Inr g' \<Longrightarrow>
     g' = g\<lparr>matrix := matrix g @ replicate (nat (rows g - i)) (replicate (nat (columns g)) (numbers (types g) ! 0))\<rparr>"
proof (induction i g rule: generateRows.induct)
  case (1 i g)
  show ?case
  proof (cases "i < rows g")
    case False
    with 1(2) show ?thesis by (simp add: generateRows.simps[of i g])
  next
    case True
    let ?g = "g\<lparr>matrix := matrix g @ [replicate (nat (columns g)) (numbers (types g) ! 0)]\<rparr>"
    from True 1(2) have ok: "\<not> (columns g < 0 \<or> 2 ^ 32 \<le> columns g)" and r: "generateRows (i + 1) ?g = Inr g'"
      by (auto simp: generateRows.simps[of i g] split: if_splits)
    have "nat (rows g - i) = Suc (nat (rows g - (i + 1)))" using True by simp
    then show ?thesis using "1.IH"[OF True ok r]
      by (simp add: replicate_append_same)
  qed
qed


lemma generateEmptyMatrix_fresh:
  assumes "generateEmptyMatrix g = Inr g'" "matrix g = []" "0 \<le> rows g"
  shows "rectangular g' \<and> rows g' = rows g \<and> columns g' = columns g \<and> types g' = types g
         \<and> mines g' = mines g \<and> safeCells g' = safeCells g
         \<and> (\<forall>p. inGrid g p \<longrightarrow> cellAt (matrix g') p = Some (numbers (types g) ! 0))"
proof -
  from generateRows_result[OF assms(1)[unfolded generateEmptyMatrix_def]] assms(2)
  have g': "g' = g\<lparr>matrix := replicate (nat (rows g)) (replicate (nat (columns g)) (numbers (types g) ! 0))\<rparr>"
    by simp
  have c: "0 \<le> columns g" if "0 < rows g"
    using assms(1) that by (auto simp: generateEmptyMatrix_def generateRows.simps[of 0 g] split: if_splits)
  show ?thesis using assms(3) c
    by (auto simp: g' rectangular_def inGrid_def cellAt_def elemAt_def)
qed

subsection \<open>Mine placement\<close>

lemma plantFrom_done: "\<not> i < mines g \<Longrightarrow> plantFrom i g ds = Inr (g, ds)"
  by (simp add: plantFrom.simps[of i g ds])

lemma plantFrom_step:
  assumes "plantFrom i g ds = Inr (g', ds')" "i < mines g"
  shows "\<exists>r1 r2 rest row c.
    ds = r1 # r2 # rest \<and>
    elemAt (matrix g) (randomIndex r1 (rows g)) = Some row \<and>
    elemAt row (randomIndex r2 (columns g)) = Some c \<and>
    (c = mine (types g) \<longrightarrow> plantFrom i g rest = Inr (g', ds')) \<and>
    (c \<noteq> mine (types g) \<longrightarrow>
       plantFrom (i + 1)
         (g\<lparr>matrix := setCell (matrix g) (randomIndex r1 (rows g)) (randomIndex r2 (columns g))
                         (mine (types g))\<rparr>) rest = Inr (g', ds'))"
proof -
  from assms obtain r1 r2 rest where ds: "ds = r1 # r2 # rest"
    by (subst (asm) plantFrom.simps) (simp split: list.splits)
  show ?thesis using assms unfolding ds
    by (subst (asm) plantFrom.simps) (simp add: Let_def split: option.splits if_splits)
qed

lemma mineAt_setCell:
  assumes "elemAt (matrix g) i = Some row" "elemAt row j = Some s"
  shows "mineAt (g\<lparr>matrix := setCell (matrix g) i j v\<rparr>) p
         = (if p = (i, j) then v = mine (types g) else mineAt g p)"
  using cellAt_setCell[OF assms] by (simp add: mineAt_def)

lemma plantFrom_result:
  assumes "plantFrom i g ds = Inr (g', ds')" "rectangular g"
  shows "\<exists>L. distinct L \<and> int (length L) = max 0 (mines g - i)
           \<and> (\<forall>p \<in> set L. inGrid g p \<and> \<not> mineAt g p \<and> mineAt g' p)
           \<and> (\<forall>p. p \<notin> set L \<longrightarrow> cellAt (matrix g') p = cellAt (matrix g) p)
           \<and> rectangular g' \<and> g' = g\<lparr>matrix := matrix g'\<rparr>"
  using assms
proof (induction ds arbitrary: i g rule: length_induct)
  case (1 ds)
  show ?case
  proof (cases "i < mines g")
    case False
    with "1.prems"(1) have "g' = g" by (simp add: plantFrom_done)
    with False "1.prems"(2) show ?thesis by (intro exI[of _ "[]"]) simp
  next
    case True
    from "1.prems"(1) True obtain r1 r2 rest row c where
      ds: "ds = r1 # r2 # rest"
      and row: "elemAt (matrix g) (randomIndex r1 (rows g)) = Some row"
      and c: "elemAt row (randomIndex r2 (columns g)) = Some c"
      and hit: "c = mine (types g) \<Longrightarrow> plantFrom i g rest = Inr (g', ds')"
      and miss: "c \<noteq> mine (types g) \<Longrightarrow>
         plantFrom (i + 1)
           (g\<lparr>matrix := setCell (matrix g) (randomIndex r1 (rows g)) (randomIndex r2 (columns g))
                           (mine (types g))\<rparr>) rest = Inr (g', ds')"
      using plantFrom_step[of i g ds g' ds'] by blast
    let ?x = "randomIndex r1 (rows g)" and ?y = "randomIndex r2 (columns g)"
    have shorter: "length rest < length ds" by (simp add: ds)
    have cell: "cellAt (matrix g) (?x, ?y) = Some c" using row c by (simp add: cellAt_def)
    show ?thesis
    proof (cases "c = mine (types g)")
      case True
      from "1.IH"[rule_format, OF shorter hit[OF True] "1.prems"(2)] show ?thesis .
    next
      case False
      let ?g = "g\<lparr>matrix := setCell (matrix g) ?x ?y (mine (types g))\<rparr>"
      have rect: "rectangular ?g" using "1.prems"(2) by (rule rectangular_setCell)
      from "1.IH"[rule_format, OF shorter miss[OF False] rect]
      obtain L where L: "distinct L" "int (length L) = max 0 (mines ?g - (i + 1))"
        "\<forall>p \<in> set L. inGrid ?g p \<and> \<not> mineAt ?g p \<and> mineAt g' p"
        "\<forall>p. p \<notin> set L \<longrightarrow> cellAt (matrix g') p = cellAt (matrix ?g) p"
        "rectangular g'" "g' = ?g\<lparr>matrix := matrix g'\<rparr>" by blast
      have at: "mineAt ?g p = (if p = (?x, ?y) then True else mineAt g p)" for p
        using mineAt_setCell[OF row c, of "mine (types g)" p] by simp
      have cellg: "cellAt (matrix ?g) p = (if p = (?x, ?y) then Some (mine (types g)) else cellAt (matrix g) p)" for p
        using cellAt_setCell[OF row c, of "mine (types g)" p] by simp
      have notin: "(?x, ?y) \<notin> set L" using L(3) at by auto
      have in_g: "inGrid g (?x, ?y)"
        using cell rectangular_cellAt[OF "1.prems"(2), of "(?x, ?y)"] by simp
      have not_mine: "\<not> mineAt g (?x, ?y)" using cell False by (simp add: mineAt_def)
      have tg: "types g' = types g" using arg_cong[OF L(6), of types] by simp
      have now_mine: "mineAt g' (?x, ?y)"
        using L(4) notin cellg[of "(?x, ?y)"] tg by (simp add: mineAt_def)
      have "distinct ((?x, ?y) # L)" using L(1) notin by simp
      moreover have "int (length ((?x, ?y) # L)) = max 0 (mines g - i)" using L(2) True by simp
      moreover have "\<forall>p \<in> set ((?x, ?y) # L). inGrid g p \<and> \<not> mineAt g p \<and> mineAt g' p"
        using L(3) at in_g not_mine now_mine by (auto simp: inGrid_def split: if_splits)
      moreover have "\<forall>p. p \<notin> set ((?x, ?y) # L) \<longrightarrow> cellAt (matrix g') p = cellAt (matrix g) p"
        using L(4) cellg by auto
      moreover have "g' = g\<lparr>matrix := matrix g'\<rparr>" by (rule trans[OF L(6)]) simp
      ultimately show ?thesis using L(5) by blast
    qed
  qed
qed

text \<open>When no cell of the grid is free, the loop cannot place a mine and never leaves.\<close>

lemma plantFrom_no_free_cell:
  assumes "\<forall>p s. cellAt (matrix g) p = Some s \<longrightarrow> s = mine (types g)" "i < mines g"
  shows "plantFrom i g ds \<noteq> Inr (g', ds')"
  using assms
proof (induction ds arbitrary: rule: length_induct)
  case (1 ds)
  show ?case
  proof
    assume r: "plantFrom i g ds = Inr (g', ds')"
    from r "1.prems"(2) obtain r1 r2 rest row c where
      ds: "ds = r1 # r2 # rest"
      and row: "elemAt (matrix g) (randomIndex r1 (rows g)) = Some row"
      and c: "elemAt row (randomIndex r2 (columns g)) = Some c"
      and hit: "c = mine (types g) \<Longrightarrow> plantFrom i g rest = Inr (g', ds')"
      using plantFrom_step[of i g ds g' ds'] by blast
    have "cellAt (matrix g) (randomIndex r1 (rows g), randomIndex r2 (columns g)) = Some c"
      using row c by (simp add: cellAt_def)
    with "1.prems"(1) have "c = mine (types g)" by blast
    from hit[OF this] "1.IH" "1.prems" show False by (auto simp: ds)
  qed
qed

subsection \<open>Neighbor annotation\<close>

text \<open>What \<open>populate\<close> writes at a coordinate, and the coordinates of the grid row by row.\<close>

definition annotate :: "Minesweeper \<Rightarrow> SafeCell \<Rightarrow> string" where
  "annotate g p = (if mineAt g p then mine (types g) else numbers (types g) ! mineCount g p)"

lemma spoilerize_safeCells_update [simp]: "spoilerize (g\<lparr>safeCells := s\<rparr>) = spoilerize g"
  by (simp add: fun_eq_iff spoilerize_def)

lemma safeCells_update_simps [simp]:
  "mineAt (g\<lparr>safeCells := s\<rparr>) = mineAt g"
  "inGrid (g\<lparr>safeCells := s\<rparr>) = inGrid g"
  "mineCount (g\<lparr>safeCells := s\<rparr>) = mineCount g"
  "annotate (g\<lparr>safeCells := s\<rparr>) = annotate g"
  "rectangular (g\<lparr>safeCells := s\<rparr>) = rectangular g"
  "built (g\<lparr>safeCells := s\<rparr>) = built g"
  by (simp_all add: fun_eq_iff mineAt_def inGrid_def mineCount_def annotate_def rectangular_def
        built_def)

lemma mineCount_le: "mineCount g p \<le> 8"
proof -
  have "mineCount g p \<le> length (neighbours p)" unfolding mineCount_def by (rule length_filter_le)
  then show ?thesis by (simp add: neighbours_def Let_def)
qed

lemma probe_in:
  assumes "rectangular g" "cond \<Longrightarrow> 0 \<le> i \<and> i < rows g"
  shows "probe g cond i j = Inr (of_bool (cond \<and> mineAt g (i, j)))"
proof (cases cond)
  case False
  then show ?thesis by (simp add: probe_def)
next
  case True
  with assms have "elemAt (matrix g) i = Some (matrix g ! nat i)"
    by (simp add: elemAt_in rectangular_def)
  with True show ?thesis by (simp add: probe_def mineAt_def cellAt_def)
qed

lemma probe_neighbour:
  assumes "rectangular g" "cond \<longleftrightarrow> inGrid g (i, j)"
  shows "probe (g\<lparr>safeCells := s\<rparr>) cond i j = Inr (of_bool (inGrid g (i, j) \<and> mineAt g (i, j)))"
proof -
  have "rectangular (g\<lparr>safeCells := s\<rparr>)" using assms(1) by simp
  moreover have "cond \<Longrightarrow> 0 \<le> i \<and> i < rows (g\<lparr>safeCells := s\<rparr>)"
    using assms(2) by (simp add: inGrid_def)
  ultimately have "probe (g\<lparr>safeCells := s\<rparr>) cond i j
      = Inr (of_bool (cond \<and> mineAt (g\<lparr>safeCells := s\<rparr>) (i, j)))"
    by (rule probe_in)
  then show ?thesis using assms(2) by simp
qed

lemma length_filter_of_bool:
  "length (filter P (q # qs)) = of_bool (P q) + length (filter P qs)"
  by simp

lemma getNumberOfMines_in:
  assumes "rectangular g" "inGrid g (x, y)"
  shows "getNumberOfMines g x y =
           Inr (annotate g (x, y),
                if mineAt g (x, y) then g else g\<lparr>safeCells := safeCells g @ [(x, y)]\<rparr>)"
proof -
  from assms have x: "0 \<le> x" "x < rows g" and y: "0 \<le> y" "y < columns g"
    by (simp_all add: inGrid_def)
  from assms(1) x have row: "elemAt (matrix g) x = Some (matrix g ! nat x)"
    by (simp add: elemAt_in rectangular_def)
  have m: "mineAt g (x, y) \<longleftrightarrow> elemAt (matrix g ! nat x) y = Some (mine (types g))"
    using row by (simp add: mineAt_def cellAt_def)
  show ?thesis
  proof (cases "mineAt g (x, y)")
    case True
    with row m show ?thesis by (simp add: getNumberOfMines_def annotate_def)
  next
    case False
    let ?g = "g\<lparr>safeCells := safeCells g @ [(x, y)]\<rparr>"
    let ?b = "\<lambda>q. of_bool (inGrid g q \<and> mineAt g q) :: nat"
    have p1: "probe ?g (x > 0 \<and> y > 0) (x - 1) (y - 1) = Inr (?b (x - 1, y - 1))"
      by (rule probe_neighbour[OF assms(1)]) (use x y in \<open>auto simp: inGrid_def\<close>)
    have p2: "probe ?g (x > 0) (x - 1) y = Inr (?b (x - 1, y))"
      by (rule probe_neighbour[OF assms(1)]) (use x y in \<open>auto simp: inGrid_def\<close>)
    have p3: "probe ?g (x > 0 \<and> y < columns g - 1) (x - 1) (y + 1) = Inr (?b (x - 1, y + 1))"
      by (rule probe_neighbour[OF assms(1)]) (use x y in \<open>auto simp: inGrid_def\<close>)
    have p4: "probe ?g (y > 0) x (y - 1) = Inr (?b (x, y - 1))"
      by (rule probe_neighbour[OF assms(1)]) (use x y in \<open>auto simp: inGrid_def\<close>)
    have p5: "probe ?g (y < columns g - 1) x (y + 1) = Inr (?b (x, y + 1))"
      by (rule probe_neighbour[OF assms(1)]) (use x y in \<open>auto simp: inGrid_def\<close>)
    have p6: "probe ?g (x < rows g - 1 \<and> y > 0) (x + 1) (y - 1) = Inr (?b (x + 1, y - 1))"
      by (rule probe_neighbour[OF assms(1)]) (use x y in \<open>auto simp: inGrid_def\<close>)
    have p7: "probe ?g (x < rows g - 1) (x + 1) y = Inr (?b (x + 1, y))"
      by (rule probe_neighbour[OF assms(1)]) (use x y in \<open>auto simp: inGrid_def\<close>)
    have p8: "probe ?g (x < rows g - 1 \<and> y < columns g - 1) (x + 1) (y + 1) = Inr (?b (x + 1, y + 1))"
      by (rule probe_neighbour[OF assms(1)]) (use x y in \<open>auto simp: inGrid_def\<close>)
    have count: "mineCount g (x, y) =
        0 + ?b (x - 1, y - 1) + ?b (x - 1, y) + ?b (x - 1, y + 1) + ?b (x, y - 1) + ?b (x, y + 1)
          + ?b (x + 1, y - 1) + ?b (x + 1, y) + ?b (x + 1, y + 1)"
      by (simp only: mineCount_def neighbours_def Let_def fst_conv snd_conv length_filter_of_bool
            filter.simps(1) list.size(3) add_0_left add_0_right add.assoc)
    have "addProbes ?g
            [(x > 0 \<and> y > 0, x - 1, y - 1), (x > 0, x - 1, y), (x > 0 \<and> y < columns g - 1, x - 1, y + 1),
             (y > 0, x, y - 1), (y < columns g - 1, x, y + 1),
             (x < rows g - 1 \<and> y > 0, x + 1, y - 1), (x < rows g - 1, x + 1, y),
             (x < rows g - 1 \<and> y < columns g - 1, x + 1, y + 1)] 0
          = Inr (mineCount g (x, y))"
      by (simp only: addProbes.simps p1 p2 p3 p4 p5 p6 p7 p8 sum.case count)
    with False row m show ?thesis
      by (simp add: getNumberOfMines_def annotate_def Let_def)
  qed
qed

lemma populateRow_result:
  assumes "rectangular g" "0 \<le> x" "x < rows g" "0 \<le> y" "y + int (length cols) \<le> columns g"
  shows "\<exists>g'. populateRow g x y cols =
            Inr (map (\<lambda>k. annotate g (x, y + int k)) [0..<length cols], g')
          \<and> g' = g\<lparr>safeCells := safeCells g'\<rparr>
          \<and> set (safeCells g') = set (safeCells g)
               \<union> {(x, j) | j. y \<le> j \<and> j < y + int (length cols) \<and> \<not> mineAt g (x, j)}"
  using assms
proof (induction cols arbitrary: g y)
  case Nil
  then show ?case by auto
next
  case (Cons col cols)
  let ?g1 = "if mineAt g (x, y) then g else g\<lparr>safeCells := safeCells g @ [(x, y)]\<rparr>"
  have here: "inGrid g (x, y)" using Cons.prems by (simp add: inGrid_def)
  have step: "getNumberOfMines g x y = Inr (annotate g (x, y), ?g1)"
    using getNumberOfMines_in[OF Cons.prems(1) here] .
  have g1: "rectangular ?g1" "rows ?g1 = rows g" "columns ?g1 = columns g"
    "annotate ?g1 = annotate g" "mineAt ?g1 = mineAt g"
    using Cons.prems(1) by simp_all
  have "\<exists>g'. populateRow ?g1 x (y + 1) cols =
            Inr (map (\<lambda>k. annotate ?g1 (x, y + 1 + int k)) [0..<length cols], g')
          \<and> g' = ?g1\<lparr>safeCells := safeCells g'\<rparr>
          \<and> set (safeCells g') = set (safeCells ?g1)
               \<union> {(x, j) | j. y + 1 \<le> j \<and> j < y + 1 + int (length cols) \<and> \<not> mineAt ?g1 (x, j)}"
    by (rule Cons.IH) (use Cons.prems g1 in auto)
  then obtain g' where rest: "populateRow ?g1 x (y + 1) cols =
            Inr (map (\<lambda>k. annotate g (x, y + 1 + int k)) [0..<length cols], g')"
    and same: "g' = ?g1\<lparr>safeCells := safeCells g'\<rparr>"
    and cells: "set (safeCells g') = set (safeCells ?g1)
               \<union> {(x, j) | j. y + 1 \<le> j \<and> j < y + 1 + int (length cols) \<and> \<not> mineAt g (x, j)}"
    unfolding g1 by blast
  have vals: "map (\<lambda>k. annotate g (x, y + int k)) [0..<length (col # cols)]
      = annotate g (x, y) # map (\<lambda>k. annotate g (x, y + 1 + int k)) [0..<length cols]"
    by (simp add: upt_conv_Cons map_Suc_upt[symmetric] del: upt_Suc) (simp add: ac_simps)
  have "populateRow g x y (col # cols) = Inr (map (\<lambda>k. annotate g (x, y + int k)) [0..<length (col # cols)], g')"
    unfolding vals using step rest by simp
  moreover have "g' = g\<lparr>safeCells := safeCells g'\<rparr>"
    by (rule trans[OF same]) simp
  moreover have "set (safeCells g') = set (safeCells g)
        \<union> {(x, j) | j. y \<le> j \<and> j < y + int (length (col # cols)) \<and> \<not> mineAt g (x, j)}"
  proof -
    have "{(x, j) | j. y \<le> j \<and> j < y + int (length (col # cols)) \<and> \<not> mineAt g (x, j)}
        = (if mineAt g (x, y) then {} else {(x, y)})
          \<union> {(x, j) | j. y + 1 \<le> j \<and> j < y + 1 + int (length cols) \<and> \<not> mineAt g (x, j)}"
      by (auto simp: order_le_less)
    then show ?thesis unfolding cells by auto
  qed
  ultimately show ?case by blast
qed

lemma populateRows_result:
  assumes "rectangular g" "0 \<le> x" "x + int (length rws) \<le> rows g"
    "\<forall>row \<in> set rws. int (length row) = columns g"
  shows "\<exists>g'. populateRows g x rws =
            Inr (map (\<lambda>i. map (\<lambda>k. annotate g (x + int i, int k)) [0..<nat (columns g)])
                   [0..<length rws], g')
          \<and> g' = g\<lparr>safeCells := safeCells g'\<rparr>
          \<and> set (safeCells g') = set (safeCells g)
               \<union> {p. x \<le> fst p \<and> fst p < x + int (length rws) \<and> 0 \<le> snd p \<and> snd p < columns g
                      \<and> \<not> mineAt g p}"
  using assms
proof (induction rws arbitrary: g x)
  case Nil
  then show ?case by auto
next
  case (Cons row rws)
  have len: "int (length row) = columns g" using Cons.prems(4) by simp
  then have len': "length row = nat (columns g)" by simp
  have "\<exists>g1. populateRow g x 0 row = Inr (map (\<lambda>k. annotate g (x, 0 + int k)) [0..<length row], g1)
          \<and> g1 = g\<lparr>safeCells := safeCells g1\<rparr>
          \<and> set (safeCells g1) = set (safeCells g)
               \<union> {(x, j) | j. 0 \<le> j \<and> j < 0 + int (length row) \<and> \<not> mineAt g (x, j)}"
    by (rule populateRow_result) (use Cons.prems len in auto)
  then obtain g1 where first: "populateRow g x 0 row = Inr (map (\<lambda>k. annotate g (x, int k)) [0..<nat (columns g)], g1)"
    and same1: "g1 = g\<lparr>safeCells := safeCells g1\<rparr>"
    and cells1: "set (safeCells g1) = set (safeCells g)
               \<union> {(x, j) | j. 0 \<le> j \<and> j < columns g \<and> \<not> mineAt g (x, j)}"
    unfolding len' using len by auto
  have g1: "rectangular g1" "rows g1 = rows g" "columns g1 = columns g"
    "annotate g1 = annotate g" "mineAt g1 = mineAt g"
    using Cons.prems(1) by (subst same1, simp)+
  have "\<exists>g'. populateRows g1 (x + 1) rws =
            Inr (map (\<lambda>i. map (\<lambda>k. annotate g1 (x + 1 + int i, int k)) [0..<nat (columns g1)])
                   [0..<length rws], g')
          \<and> g' = g1\<lparr>safeCells := safeCells g'\<rparr>
          \<and> set (safeCells g') = set (safeCells g1)
               \<union> {p. x + 1 \<le> fst p \<and> fst p < x + 1 + int (length rws) \<and> 0 \<le> snd p
                      \<and> snd p < columns g1 \<and> \<not> mineAt g1 p}"
    by (rule Cons.IH) (use Cons.prems g1 in auto)
  then obtain g' where rest: "populateRows g1 (x + 1) rws =
            Inr (map (\<lambda>i. map (\<lambda>k. annotate g (x + 1 + int i, int k)) [0..<nat (columns g)])
                   [0..<length rws], g')"
    and same: "g' = g1\<lparr>safeCells := safeCells g'\<rparr>"
    and cells: "set (safeCells g') = set (safeCells g1)
               \<union> {p. x + 1 \<le> fst p \<and> fst p < x + 1 + int (length rws) \<and> 0 \<le> snd p
                      \<and> snd p < columns g \<and> \<not> mineAt g p}"
    unfolding g1 by blast
  have vals: "map (\<lambda>i. map (\<lambda>k. annotate g (x + int i, int k)) [0..<nat (columns g)]) [0..<length (row # rws)]
      = map (\<lambda>k. annotate g (x, int k)) [0..<nat (columns g)]
        # map (\<lambda>i. map (\<lambda>k. annotate g (x + 1 + int i, int k)) [0..<nat (columns g)]) [0..<length rws]"
    by (simp add: upt_conv_Cons map_Suc_upt[symmetric] del: upt_Suc) (simp add: ac_simps)
  have "populateRows g x (row # rws) =
      Inr (map (\<lambda>i. map (\<lambda>k. annotate g (x + int i, int k)) [0..<nat (columns g)]) [0..<length (row # rws)], g')"
    unfolding vals using first rest by simp
  moreover have "g' = g\<lparr>safeCells := safeCells g'\<rparr>"
    by (rule trans[OF same], subst same1) simp
  moreover have "set (safeCells g') = set (safeCells g)
        \<union> {p. x \<le> fst p \<and> fst p < x + int (length (row # rws)) \<and> 0 \<le> snd p \<and> snd p < columns g
               \<and> \<not> mineAt g p}"
    unfolding cells cells1 by (auto simp: order_le_less)
  ultimately show ?case by blast
qed

text \<open>On a rectangular grid \<open>populate\<close> returns, and this is what it leaves.\<close>

lemma populate_result:
  assumes "rectangular g"
  shows "\<exists>g'. populate g = Inr g'
          \<and> matrix g' = map (\<lambda>i. map (\<lambda>k. annotate g (int i, int k)) [0..<nat (columns g)])
                            [0..<nat (rows g)]
          \<and> g' = g\<lparr>safeCells := safeCells g', matrix := matrix g'\<rparr>
          \<and> set (safeCells g') = set (safeCells g) \<union> {p. inGrid g p \<and> \<not> mineAt g p}"
proof -
  have "\<exists>g'. populateRows g 0 (matrix g) =
            Inr (map (\<lambda>i. map (\<lambda>k. annotate g (0 + int i, int k)) [0..<nat (columns g)])
                   [0..<length (matrix g)], g')
          \<and> g' = g\<lparr>safeCells := safeCells g'\<rparr>
          \<and> set (safeCells g') = set (safeCells g)
               \<union> {p. 0 \<le> fst p \<and> fst p < 0 + int (length (matrix g)) \<and> 0 \<le> snd p \<and> snd p < columns g
                      \<and> \<not> mineAt g p}"
    by (rule populateRows_result) (use assms in \<open>auto simp: rectangular_def\<close>)
  have len: "int (length (matrix g)) = rows g" using assms by (simp add: rectangular_def)
  then have len': "length (matrix g) = nat (rows g)" by simp
  note run0 = \<open>\<exists>g'. populateRows g 0 (matrix g) =
            Inr (map (\<lambda>i. map (\<lambda>k. annotate g (0 + int i, int k)) [0..<nat (columns g)])
                   [0..<length (matrix g)], g')
          \<and> g' = g\<lparr>safeCells := safeCells g'\<rparr>
          \<and> set (safeCells g') = set (safeCells g)
               \<union> {p. 0 \<le> fst p \<and> fst p < 0 + int (length (matrix g)) \<and> 0 \<le> snd p \<and> snd p < columns g
                      \<and> \<not> mineAt g p}\<close>
  from run0 obtain g1 where run: "populateRows g 0 (matrix g) =
            Inr (map (\<lambda>i. map (\<lambda>k. annotate g (int i, int k)) [0..<nat (columns g)])
                   [0..<nat (rows g)], g1)"
    and same: "g1 = g\<lparr>safeCells := safeCells g1\<rparr>"
    and cells: "set (safeCells g1) = set (safeCells g) \<union> {p. inGrid g p \<and> \<not> mineAt g p}"
    unfolding len' inGrid_def using len by auto
  let ?m = "map (\<lambda>i. map (\<lambda>k. annotate g (int i, int k)) [0..<nat (columns g)]) [0..<nat (rows g)]"
  have "populate g = Inr (g1\<lparr>matrix := ?m\<rparr>)" using run by (simp add: populate_def)
  moreover have "g1\<lparr>matrix := ?m\<rparr> = g\<lparr>safeCells := safeCells (g1\<lparr>matrix := ?m\<rparr>), matrix := matrix (g1\<lparr>matrix := ?m\<rparr>)\<rparr>"
    by (subst same) simp
  ultimately show ?thesis using cells by (intro exI[of _ "g1\<lparr>matrix := ?m\<rparr>"]) simp
qed

lemma populate_cellAt:
  assumes "matrix g' = map (\<lambda>i. map (\<lambda>k. annotate g (int i, int k)) [0..<nat (columns g)]) [0..<nat (rows g)]"
    "inGrid g p"
  shows "cellAt (matrix g') p = Some (annotate g p)"
  using assms by (cases p) (simp add: cellAt_def elemAt_def inGrid_def)

lemma populate_rectangular:
  assumes "matrix g' = map (\<lambda>i. map (\<lambda>k. annotate g (int i, int k)) [0..<nat (columns g)]) [0..<nat (rows g)]"
    "rows g' = rows g" "columns g' = columns g" "rectangular g"
  shows "rectangular g'"
  using assms by (auto simp: rectangular_def)

subsection \<open>Zero-count cells and chains of them\<close>

text \<open>A cell that is no mine and has no mine among its neighbours.\<close>

definition zeroAt :: "Minesweeper \<Rightarrow> SafeCell \<Rightarrow> bool" where
  "zeroAt g p = (inGrid g p \<and> \<not> mineAt g p \<and> mineCount g p = 0)"

text \<open>\<open>q\<close> lies in the 3 by 3 block centered on \<open>p\<close>.\<close>

definition near :: "SafeCell \<Rightarrow> SafeCell \<Rightarrow> bool" where
  "near p q = (\<bar>fst q - fst p\<bar> \<le> 1 \<and> \<bar>snd q - snd p\<bar> \<le> 1)"

text \<open>\<open>zeroChain g s z\<close>: a chain of adjacent zero-count cells leads from \<open>s\<close> to \<open>z\<close>.\<close>

inductive zeroChain :: "Minesweeper \<Rightarrow> SafeCell \<Rightarrow> SafeCell \<Rightarrow> bool" for g s where
  seed: "zeroAt g s \<Longrightarrow> zeroChain g s s"
| link: "zeroChain g s z \<Longrightarrow> near z q \<Longrightarrow> zeroAt g q \<Longrightarrow> zeroChain g s q"

text \<open>The number of cells of a grid with a given property.\<close>

definition countCells :: "(string \<Rightarrow> bool) \<Rightarrow> string list list \<Rightarrow> nat" where
  "countCells P m = sum_list (map (\<lambda>row. length (filter P row)) m)"

text \<open>The cells of a grid that hold the mine token.\<close>

definition mineTokens :: "Minesweeper \<Rightarrow> nat" where
  "mineTokens g = countCells (\<lambda>t. t = mine (types g)) (matrix g)"

text \<open>
  The cells that hold the token of a count, masked or unmasked; \<open>numbers\<close> holds the nine
  tokens of the counts 0 to 8.
\<close>

definition numberTokens :: "Minesweeper \<Rightarrow> nat" where
  "numberTokens g =
     countCells (\<lambda>t. t \<in> set (numbers (types g)) \<or> t \<in> set (map slice (numbers (types g)))) (matrix g)"

text \<open>
  The states of the initial reveal of a populated board with mine layout \<open>l\<close>: every cell
  still shows what \<open>populate\<close> wrote, or that without its first two and last two characters.
\<close>

definition layoutState :: "Minesweeper \<Rightarrow> Minesweeper \<Rightarrow> bool" where
  "layoutState l g =
     (rows g = rows l \<and> columns g = columns l \<and> types g = types l \<and> rectangular g \<and>
      (\<forall>p. inGrid l p \<longrightarrow>
         cellAt (matrix g) p = Some (annotate l p) \<or> cellAt (matrix g) p = Some (slice (annotate l p))))"

text \<open>
  The states a flood fill from the zero cell \<open>s\<close> may reach from \<open>g0\<close>: a cell that differs
  from \<open>g0\<close> is no mine, lies in the block around a cell of a zero chain from \<open>s\<close>, and is
  unmasked.
\<close>

definition floodState :: "Minesweeper \<Rightarrow> Minesweeper \<Rightarrow> SafeCell \<Rightarrow> Minesweeper \<Rightarrow> bool" where
  "floodState l g0 s g =
     (layoutState l g \<and>
      (\<forall>p. inGrid l p \<longrightarrow>
         cellAt (matrix g) p = cellAt (matrix g0) p \<or>
         (cellAt (matrix g) p = Some (slice (annotate l p)) \<and> \<not> mineAt l p \<and>
          (\<exists>z. zeroChain l s z \<and> near z p))))"

lemma zeroChain_zeroAt: "zeroChain g s z \<Longrightarrow> zeroAt g z"
  by (induction rule: zeroChain.induct) auto

lemma near_neighbours: "near p q \<Longrightarrow> q \<noteq> p \<Longrightarrow> q \<in> set (neighbours p)"
proof -
  assume n: "near p q" and d: "q \<noteq> p"
  obtain x y where p: "p = (x, y)" by (cases p)
  obtain a b where q: "q = (a, b)" by (cases q)
  from n have "a = x - 1 \<or> a = x \<or> a = x + 1" "b = y - 1 \<or> b = y \<or> b = y + 1"
    by (auto simp: near_def p q)
  with d show ?thesis by (auto simp: neighbours_def p q)
qed

lemma zero_no_mine_near:
  assumes "zeroAt g c" "near c q" "inGrid g q"
  shows "\<not> mineAt g q"
proof (cases "q = c")
  case True
  with assms(1) show ?thesis by (simp add: zeroAt_def)
next
  case False
  with assms(2) have "q \<in> set (neighbours c)" by (rule near_neighbours)
  moreover from assms(1) have "filter (\<lambda>q. inGrid g q \<and> mineAt g q) (neighbours c) = []"
    by (simp add: zeroAt_def mineCount_def)
  ultimately show ?thesis using assms(3) by (auto simp: filter_empty_conv)
qed

lemma block_set: "q \<in> set (block g c) \<Longrightarrow> inGrid g q \<and> near c q"
  by (auto simp: block_def Let_def inGrid_def near_def)

lemma countCells_setCell:
  assumes "elemAt m i = Some row" "elemAt row j = Some s"
  shows "countCells P (setCell m i j v) + of_bool (P s) = countCells P m + of_bool (P v)"
proof -
  from assms have i: "nat i < length m" "m ! nat i = row" and j: "nat j < length row" "row ! nat j = s"
    by (simp_all add: elemAt_eq_Some)
  have len: "length (filter P xs) = sum_list (map (\<lambda>x. of_bool (P x)) xs)" for xs :: "string list"
    by (induction xs) auto
  have upd: "length (filter P (xs[k := v])) + of_bool (P (xs ! k)) = length (filter P xs) + of_bool (P v)"
    if "k < length xs" for xs :: "string list" and k
    unfolding len using sum_list_map_update[OF that, of "\<lambda>x. of_bool (P x)" v] .
  have "length (filter P (row[nat j := v])) + of_bool (P s) = length (filter P row) + of_bool (P v)"
    using upd[OF j(1)] j(2) by simp
  moreover have "countCells P (setCell m i j v) + length (filter P row)
      = countCells P m + length (filter P (row[nat j := v]))"
    using sum_list_map_update[OF i(1), of "\<lambda>r. length (filter P r)" "row[nat j := v]"] i(2)
    by (simp add: countCells_def setCell_def)
  ultimately show ?thesis by linarith
qed

lemma number_token:
  assumes "built l" "\<not> mineAt l p"
  shows "annotate l p = spoilerizeWith (spaces l) (numberNames ! mineCount l p)"
    and "numberNames ! mineCount l p \<in> set numberNames"
proof -
  have k: "mineCount l p < 9" using mineCount_le[of l p] by simp
  show "annotate l p = spoilerizeWith (spaces l) (numberNames ! mineCount l p)"
    using assms k by (simp add: annotate_def built_number)
  show "numberNames ! mineCount l p \<in> set numberNames"
    using k by (simp add: length_numberNames)
qed

lemma zero_token_count:
  assumes "built l" "\<not> mineAt l p" "annotate l p = numbers (types l) ! 0"
  shows "mineCount l p = 0"
proof -
  have k: "mineCount l p < 9" using mineCount_le[of l p] by simp
  from assms have "spoilerizeWith (spaces l) (numberNames ! mineCount l p)
      = spoilerizeWith (spaces l) (numberNames ! 0)"
    by (simp add: number_token(1) built_number)
  then have "numberNames ! mineCount l p = numberNames ! 0" by (simp add: spoilerizeWith_inject)
  with k show ?thesis
    using distinct_numberNames by (simp add: nth_eq_iff_index_eq length_numberNames)
qed

declare revealSurroundings.simps [simp del]

text \<open>The number of masked zero cells: the cells that can still become seeds.\<close>

definition maskedZeros :: "Minesweeper \<Rightarrow> nat" where
  "maskedZeros g = countCells (\<lambda>t. t = numbers (types g) ! 0) (matrix g)"

lemma reveal_weight:
  "revealSurroundings g c r = Inr g' \<Longrightarrow> weight (matrix g') \<le> weight (matrix g)"
  "revealEach g zs = Inr g' \<Longrightarrow> weight (matrix g') \<le> weight (matrix g)"
proof (induction g c r and g zs arbitrary: g' and g' rule: revealSurroundings_revealEach.induct)
  case (1 g c recurse)
  from 1(2) obtain g1 zs where b: "revealBlock g [] (block g c) = Inr (g1, zs)"
    by (auto simp: revealSurroundings.simps split: sum.splits)
  from revealBlock_weight[OF b] have w: "weight (matrix g1) \<le> weight (matrix g)" by simp
  show ?case
  proof (cases recurse)
    case True
    with 1(2) b have "revealEach g1 zs = Inr g'" by (simp add: revealSurroundings.simps)
    from 1(1)[OF b refl True this] w show ?thesis by simp
  next
    case False
    with 1(2) b show ?thesis using w by (simp add: revealSurroundings.simps)
  qed
next
  case (2 g)
  then show ?case by simp
next
  case (3 g z zs)
  from 3(3) obtain g1 where a: "revealSurroundings g z True = Inr g1" and b: "revealEach g1 zs = Inr g'"
    by (auto split: sum.splits)
  from 3(1)[OF a] 3(2)[OF a b] show ?case by simp
qed

text \<open>
  The number of calls of \<open>revealSurroundings\<close> that one call makes, itself included:
  the same recursion, counting instead of revealing.
\<close>

function expansions :: "Minesweeper \<Rightarrow> SafeCell \<Rightarrow> bool \<Rightarrow> nat"
  and expansionsEach :: "Minesweeper \<Rightarrow> SafeCell list \<Rightarrow> nat" where
  "expansions g c recurse =
     1 + (case revealBlock g [] (block g c) of
            Inl e \<Rightarrow> 0
          | Inr (g', zeroCells) \<Rightarrow> if recurse then expansionsEach g' zeroCells else 0)"
| "expansionsEach g [] = 0"
| "expansionsEach g (z # zs) =
     expansions g z True +
     (case revealSurroundings g z True of
        Inl e \<Rightarrow> 0
      | Inr g' \<Rightarrow> expansionsEach g' zs)"
  by pat_completeness auto
termination
proof (relation "measure (\<lambda>a. case a of
           Inl (g, c, r) \<Rightarrow> 2 * weight (matrix g) + 1
         | Inr (g, zs) \<Rightarrow> 2 * weight (matrix g) + 2 * length zs)", goal_cases)
  case 1
  then show ?case by simp
next
  case (2 g c recurse x2 x y)
  then show ?case using revealBlock_weight[of g "[]" "block g c" x y] by auto
next
  case (3 g z zs)
  then show ?case by simp
next
  case (4 g z zs x2)
  then show ?case using reveal_weight(1)[of g z True x2] by simp
qed

declare expansions.simps [simp del]

subsection \<open>One sweep of the block\<close>

lemma layoutState_cell:
  assumes "layoutState l g" "inGrid l q"
  obtains row t where "elemAt (matrix g) (fst q) = Some row" "elemAt row (snd q) = Some t"
    "t = annotate l q \<or> t = slice (annotate l q)"
proof -
  from assms have "cellAt (matrix g) q = Some (annotate l q) \<or> cellAt (matrix g) q = Some (slice (annotate l q))"
    unfolding layoutState_def by blast
  then obtain t where t: "cellAt (matrix g) q = Some t" "t = annotate l q \<or> t = slice (annotate l q)"
    by auto
  from cellAt_SomeD[OF t(1)] t(2) that show thesis by blast
qed

lemma revealBlock_flood:
  assumes l: "rectangular l" "built l" and c: "zeroChain l s c"
  shows "floodState l g0 s g \<Longrightarrow> \<forall>q \<in> set todo. inGrid l q \<and> near c q \<Longrightarrow>
         \<forall>z \<in> set zs. zeroChain l s z \<Longrightarrow>
         \<exists>g' zs'. revealBlock g zs todo = Inr (g', zs') \<and> floodState l g0 s g'
            \<and> (\<forall>z \<in> set zs'. zeroChain l s z)
            \<and> maskedZeros g' + length zs' \<le> maskedZeros g + length zs"
proof (induction todo arbitrary: g zs)
  case Nil
  then show ?case by simp
next
  case (Cons q todo)
  obtain i j where q: "q = (i, j)" by (cases q)
  from Cons.prems(2) have inq: "inGrid l q" and nq: "near c q" by simp_all
  from Cons.prems(1) have ls: "layoutState l g" by (simp add: floodState_def)
  then have tg: "types g = types l" by (simp add: layoutState_def)
  from ls inq obtain row t where row: "elemAt (matrix g) i = Some row" and t: "elemAt row j = Some t"
    and tt: "t = annotate l q \<or> t = slice (annotate l q)"
    by (rule layoutState_cell) (simp_all add: q)
  have nm: "\<not> mineAt l q" using zeroChain_zeroAt[OF c] nq inq by (rule zero_no_mine_near)
  note tok = number_token[OF l(2) nm]
  have rest: "\<forall>q \<in> set todo. inGrid l q \<and> near c q" using Cons.prems(2) by simp
  show ?case
  proof (cases "isSpoiler t")
    case False
    then have "revealBlock g zs (q # todo) = revealBlock g zs todo"
      using row t by (simp add: q)
    with Cons.IH[OF Cons.prems(1) rest Cons.prems(3)] show ?thesis by simp
  next
    case True
    have t_eq: "t = annotate l q"
    proof (rule ccontr)
      assume "t \<noteq> annotate l q"
      with tt have "t = slice (spoilerizeWith (spaces l) (numberNames ! mineCount l q))"
        by (simp add: tok(1))
      with True number_revealed_not_spoiler[OF tok(2)] show False by simp
    qed
    let ?g = "g\<lparr>matrix := setCell (matrix g) i j (slice t)\<rparr>"
    let ?zs = "if t = numbers (types g) ! 0 then zs @ [(i, j)] else zs"
    have run: "revealBlock g zs (q # todo) = revealBlock ?g ?zs todo"
      using row t True by (simp add: q)
    have cells: "cellAt (matrix ?g) p = (if p = q then Some (slice (annotate l q)) else cellAt (matrix g) p)" for p
      using cellAt_setCell[OF row t, of "slice t" p] by (simp add: q t_eq)
    have ls': "layoutState l ?g"
      using ls rectangular_setCell[of g i j "slice t"] cells by (auto simp: layoutState_def)
    have fs': "floodState l g0 s ?g"
      unfolding floodState_def
    proof (intro conjI allI impI)
      show "layoutState l ?g" by (rule ls')
    next
      fix p assume p: "inGrid l p"
      show "cellAt (matrix ?g) p = cellAt (matrix g0) p \<or>
            cellAt (matrix ?g) p = Some (slice (annotate l p)) \<and> \<not> mineAt l p \<and> (\<exists>z. zeroChain l s z \<and> near z p)"
      proof (cases "p = q")
        case True
        have "cellAt (matrix ?g) p = Some (slice (annotate l p))" using cells[of p] True by simp
        moreover have "\<not> mineAt l p" using nm True by simp
        moreover have "\<exists>z. zeroChain l s z \<and> near z p" using c nq True by blast
        ultimately show ?thesis by blast
      next
        case False
        have "cellAt (matrix g) p = cellAt (matrix g0) p \<or>
            cellAt (matrix g) p = Some (slice (annotate l p)) \<and> \<not> mineAt l p \<and> (\<exists>z. zeroChain l s z \<and> near z p)"
          using Cons.prems(1) p unfolding floodState_def by blast
        with cells[of p] False show ?thesis by simp
      qed
    qed
    have zero0: "numbers (types g) ! 0 = spoilerizeWith (spaces l) (numberNames ! 0)"
      using l(2) by (simp add: tg built_number)
    have seeds': "\<forall>z \<in> set ?zs. zeroChain l s z"
    proof (cases "t = numbers (types g) ! 0")
      case False
      then show ?thesis using Cons.prems(3) by simp
    next
      case True
      then have "annotate l q = numbers (types l) ! 0" by (simp add: t_eq tg)
      with l(2) nm have "mineCount l q = 0" by (rule zero_token_count)
      with inq nm have "zeroAt l q" by (simp add: zeroAt_def)
      with c nq have "zeroChain l s q" by (rule zeroChain.link)
      then show ?thesis using Cons.prems(3) True by (simp add: q)
    qed
    have "slice t \<noteq> numbers (types g) ! 0"
      unfolding zero0 t_eq tok(1) by (rule slice_not_token)
    then have count: "maskedZeros ?g + length ?zs = maskedZeros g + length zs"
      using countCells_setCell[OF row t, of "\<lambda>t. t = numbers (types g) ! 0" "slice t"]
      by (cases "t = numbers (types g) ! 0") (simp_all add: maskedZeros_def)
    from Cons.IH[OF fs' rest seeds'] obtain g' zs' where
      "revealBlock ?g ?zs todo = Inr (g', zs')" "floodState l g0 s g'" "\<forall>z \<in> set zs'. zeroChain l s z"
      "maskedZeros g' + length zs' \<le> maskedZeros ?g + length ?zs" by blast
    with run count show ?thesis by (intro exI[of _ g'] exI[of _ zs']) simp
  qed
qed

lemma inGrid_cong: "rows g = rows l \<Longrightarrow> columns g = columns l \<Longrightarrow> inGrid g = inGrid l"
  by (simp add: fun_eq_iff inGrid_def)

text \<open>
  The flood fill from a cell of a zero chain returns, stays within the states described by
  \<open>floodState\<close>, and makes at most one call more than there were masked zero cells.
\<close>

lemma flood_fill:
  assumes l: "rectangular l" "built l"
  shows "floodState l g0 s g \<Longrightarrow> zeroChain l s c \<Longrightarrow>
           \<exists>g'. revealSurroundings g c r = Inr g' \<and> floodState l g0 s g'
              \<and> expansions g c r + maskedZeros g' \<le> 1 + maskedZeros g"
    and "floodState l g0 s g \<Longrightarrow> \<forall>z \<in> set zs. zeroChain l s z \<Longrightarrow>
           \<exists>g'. revealEach g zs = Inr g' \<and> floodState l g0 s g'
              \<and> expansionsEach g zs + maskedZeros g' \<le> length zs + maskedZeros g"
proof (induction g c r and g zs rule: revealSurroundings_revealEach.induct)
  case (1 g c recurse)
  from "1.prems"(1) have "rows g = rows l" "columns g = columns l"
    by (simp_all add: floodState_def layoutState_def)
  then have "inGrid g = inGrid l" by (rule inGrid_cong)
  then have cells: "\<forall>q \<in> set (block g c). inGrid l q \<and> near c q"
    using block_set[of _ g c] by auto
  have "\<exists>g' zs'. revealBlock g [] (block g c) = Inr (g', zs') \<and> floodState l g0 s g'
            \<and> (\<forall>z \<in> set zs'. zeroChain l s z)
            \<and> maskedZeros g' + length zs' \<le> maskedZeros g + length ([] :: SafeCell list)"
    by (rule revealBlock_flood[OF l "1.prems"(2) "1.prems"(1) cells]) simp
  then obtain g1 zs where b: "revealBlock g [] (block g c) = Inr (g1, zs)"
    and fs1: "floodState l g0 s g1" and ch: "\<forall>z \<in> set zs. zeroChain l s z"
    and cnt: "maskedZeros g1 + length zs \<le> maskedZeros g" by auto
  show ?case
  proof (cases recurse)
    case True
    from "1.IH"[OF b refl True fs1 ch] obtain g' where
      r: "revealEach g1 zs = Inr g'" and fs': "floodState l g0 s g'"
      and e: "expansionsEach g1 zs + maskedZeros g' \<le> length zs + maskedZeros g1" by blast
    have "revealSurroundings g c recurse = Inr g'"
      using b True r by (simp add: revealSurroundings.simps)
    moreover have "expansions g c recurse = 1 + expansionsEach g1 zs"
      using b True by (simp add: expansions.simps)
    ultimately show ?thesis using fs' e cnt by (intro exI[of _ g']) simp
  next
    case False
    have "revealSurroundings g c recurse = Inr g1"
      using b False by (simp add: revealSurroundings.simps)
    moreover have "expansions g c recurse = 1"
      using b False by (simp add: expansions.simps)
    ultimately show ?thesis using fs1 cnt by (intro exI[of _ g1]) simp
  qed
next
  case (2 g)
  then show ?case by simp
next
  case (3 g z zs)
  from "3.prems"(2) have z: "zeroChain l s z" and zs: "\<forall>z \<in> set zs. zeroChain l s z" by simp_all
  from "3.IH"(1)[OF "3.prems"(1) z] obtain g1 where
    a: "revealSurroundings g z True = Inr g1" and fs1: "floodState l g0 s g1"
    and e1: "expansions g z True + maskedZeros g1 \<le> 1 + maskedZeros g" by blast
  from "3.IH"(2)[OF a fs1 zs] obtain g' where
    r: "revealEach g1 zs = Inr g'" and fs': "floodState l g0 s g'"
    and e2: "expansionsEach g1 zs + maskedZeros g' \<le> length zs + maskedZeros g1" by blast
  have "revealEach g (z # zs) = Inr g'" using a r by simp
  moreover have "expansionsEach g (z # zs) = expansions g z True + expansionsEach g1 zs"
    using a by simp
  ultimately show ?case using fs' e1 e2 by (intro exI[of _ g']) simp
qed

subsection \<open>The populated board\<close>

lemma populate_layout:
  assumes "rectangular l" "populate l = Inr g"
  shows "layoutState l g"
    and "\<And>p. inGrid l p \<Longrightarrow> cellAt (matrix g) p = Some (annotate l p)"
    and "set (safeCells g) = set (safeCells l) \<union> {p. inGrid l p \<and> \<not> mineAt l p}"
    and "g = l\<lparr>safeCells := safeCells g, matrix := matrix g\<rparr>"
proof -
  from populate_result[OF assms(1)] assms(2)
  have m: "matrix g = map (\<lambda>i. map (\<lambda>k. annotate l (int i, int k)) [0..<nat (columns l)]) [0..<nat (rows l)]"
    and same: "g = l\<lparr>safeCells := safeCells g, matrix := matrix g\<rparr>"
    and cells: "set (safeCells g) = set (safeCells l) \<union> {p. inGrid l p \<and> \<not> mineAt l p}"
    by auto
  have f: "rows g = rows l" "columns g = columns l" "types g = types l"
    using arg_cong[OF same, of rows] arg_cong[OF same, of columns] arg_cong[OF same, of types]
    by simp_all
  show c: "\<And>p. inGrid l p \<Longrightarrow> cellAt (matrix g) p = Some (annotate l p)"
    using m by (rule populate_cellAt)
  have "rectangular g" using m f(1,2) assms(1) by (rule populate_rectangular)
  with f c show "layoutState l g" by (simp add: layoutState_def)
  show "set (safeCells g) = set (safeCells l) \<union> {p. inGrid l p \<and> \<not> mineAt l p}" by (rule cells)
  show "g = l\<lparr>safeCells := safeCells g, matrix := matrix g\<rparr>" by (rule same)
qed

lemma token_isSpoiler:
  assumes "built l"
  shows "isSpoiler (annotate l p)"
proof (cases "mineAt l p")
  case True
  then show ?thesis using assms by (simp add: annotate_def built_mine isSpoiler_spoilerizeWith)
next
  case False
  then show ?thesis using number_token(1)[OF assms False] by (simp add: isSpoiler_spoilerizeWith)
qed

lemma number_revealed:
  assumes "built l" "\<not> mineAt l p"
  shows "\<not> isSpoiler (slice (annotate l p))"
  using number_token[OF assms] number_revealed_not_spoiler by simp

lemma countCells_zero: "(\<And>row t. row \<in> set m \<Longrightarrow> t \<in> set row \<Longrightarrow> \<not> P t) \<Longrightarrow> countCells P m = 0"
  by (auto simp: countCells_def filter_empty_conv)

lemma populated_all_masked:
  assumes "rectangular l" "built l" "populate l = Inr g"
  shows "countCells (\<lambda>t. \<not> isSpoiler t) (matrix g) = 0"
proof (rule countCells_zero)
  fix row t assume "row \<in> set (matrix g)" "t \<in> set row"
  moreover from populate_result[OF assms(1)] assms(3)
  have "matrix g = map (\<lambda>i. map (\<lambda>k. annotate l (int i, int k)) [0..<nat (columns l)]) [0..<nat (rows l)]"
    by auto
  ultimately obtain p where "t = annotate l p" by auto
  then show "\<not> \<not> isSpoiler t" using token_isSpoiler[OF assms(2)] by simp
qed

subsection \<open>The first reveal\<close>

lemma randomIndex_range:
  assumes "0 \<le> r" "r < 1" "0 < n"
  shows "0 \<le> randomIndex r n" and "randomIndex r n < n"
proof -
  have "0 \<le> r * of_int n" using assms by simp
  then show "0 \<le> randomIndex r n" by (simp add: randomIndex_def)
  have "r * of_int n < 1 * of_int n" using assms by (intro mult_strict_right_mono) simp_all
  then show "randomIndex r n < n" by (simp add: randomIndex_def floor_less_iff)
qed

lemma filterZero_Inr:
  "filterZero g cs = Inr zs \<Longrightarrow>
     zs = filter (\<lambda>c. cellAt (matrix g) c = Some (numbers (types g) ! 0)) cs"
  by (induction cs arbitrary: zs) (auto simp: cellAt_def split: option.splits sum.splits)

lemma filterZero_returns:
  "\<forall>c \<in> set cs. elemAt (matrix g) (fst c) \<noteq> None \<Longrightarrow> \<exists>zs. filterZero g cs = Inr zs"
  by (induction cs) (auto split: option.splits sum.splits)

lemma elemAt_set: "elemAt xs i = Some v \<Longrightarrow> v \<in> set xs"
  by (auto simp: elemAt_eq_Some)

lemma unmask_Inr:
  assumes "unmask g sc = Inr g'"
  obtains c row t where "sc = Some c" "elemAt (matrix g) (fst c) = Some row" "elemAt row (snd c) = Some t"
    "g' = g\<lparr>matrix := setCell (matrix g) (fst c) (snd c) (slice t)\<rparr>"
  using assms by (auto simp: unmask_def split: option.splits)

text \<open>
  The states in which every mine is still masked: what the initial reveal keeps true of a
  populated board.
\<close>

definition minesMasked :: "Minesweeper \<Rightarrow> Minesweeper \<Rightarrow> bool" where
  "minesMasked l g =
     (layoutState l g \<and> (\<forall>p. inGrid l p \<longrightarrow> mineAt l p \<longrightarrow> cellAt (matrix g) p = Some (annotate l p)))"

lemma unmask_safe:
  assumes l: "rectangular l" "populate l = Inr g"
    and c: "inGrid l c" "\<not> mineAt l c" and u: "unmask g (Some c) = Inr g'"
  shows "layoutState l g'"
    and "\<And>p. cellAt (matrix g') p = (if p = c then Some (slice (annotate l c)) else cellAt (matrix g) p)"
    and "g' = g\<lparr>matrix := setCell (matrix g) (fst c) (snd c) (slice (annotate l c))\<rparr>"
    and "countCells P (matrix g') + of_bool (P (annotate l c))
           = countCells P (matrix g) + of_bool (P (slice (annotate l c)))"
proof -
  note pl = populate_layout[OF l]
  from u obtain row t where row: "elemAt (matrix g) (fst c) = Some row" and t: "elemAt row (snd c) = Some t"
    and g': "g' = g\<lparr>matrix := setCell (matrix g) (fst c) (snd c) (slice t)\<rparr>"
    by (auto elim: unmask_Inr)
  from row t have "cellAt (matrix g) c = Some t" by (simp add: cellAt_def)
  with pl(2)[OF c(1)] have t_eq: "t = annotate l c" by simp
  show cells: "\<And>p. cellAt (matrix g') p = (if p = c then Some (slice (annotate l c)) else cellAt (matrix g) p)"
    using cellAt_setCell[OF row t, of "slice t"] by (simp add: g' t_eq)
  show "g' = g\<lparr>matrix := setCell (matrix g) (fst c) (snd c) (slice (annotate l c))\<rparr>"
    by (simp add: g' t_eq)
  show "layoutState l g'"
    using pl(1) rectangular_setCell[of g "fst c" "snd c" "slice t"] cells
    by (auto simp: layoutState_def g')
  show "countCells P (matrix g') + of_bool (P (annotate l c))
           = countCells P (matrix g) + of_bool (P (slice (annotate l c)))"
    using countCells_setCell[OF row t, of P "slice t"] by (simp add: g' t_eq)
qed

lemma revealBlock_fields:
  "revealBlock g zs todo = Inr (g', zs') \<Longrightarrow> g' = g\<lparr>matrix := matrix g'\<rparr>"
proof (induction g zs todo rule: revealBlock.induct)
  case (1 g zeroCells)
  then show ?case by simp
next
  case (2 g zeroCells i j todo)
  from "2.prems" obtain row t where row: "elemAt (matrix g) i = Some row" and t: "elemAt row j = Some t"
    by (auto split: option.splits)
  show ?case
  proof (cases "isSpoiler t")
    case True
    let ?g = "g\<lparr>matrix := setCell (matrix g) i j (slice t)\<rparr>"
    from "2.prems" row t True
    have "revealBlock ?g (if t = numbers (types g) ! 0 then zeroCells @ [(i, j)] else zeroCells) todo = Inr (g', zs')"
      by simp
    from "2.IH"(1)[OF row t True this] have "g' = ?g\<lparr>matrix := matrix g'\<rparr>" .
    then show ?thesis by (rule trans) simp
  next
    case False
    with "2.prems" row t have "revealBlock g zeroCells todo = Inr (g', zs')" by simp
    from "2.IH"(2)[OF row t False this] show ?thesis .
  qed
qed

lemma reveal_fields:
  "revealSurroundings g c r = Inr g' \<Longrightarrow> g' = g\<lparr>matrix := matrix g'\<rparr>"
  "revealEach g zs = Inr g' \<Longrightarrow> g' = g\<lparr>matrix := matrix g'\<rparr>"
proof (induction g c r and g zs arbitrary: g' and g' rule: revealSurroundings_revealEach.induct)
  case (1 g c recurse)
  from 1(2) obtain g1 zs where b: "revealBlock g [] (block g c) = Inr (g1, zs)"
    by (auto simp: revealSurroundings.simps split: sum.splits)
  note f1 = revealBlock_fields[OF b]
  show ?case
  proof (cases recurse)
    case True
    with 1(2) b have "revealEach g1 zs = Inr g'" by (simp add: revealSurroundings.simps)
    from 1(1)[OF b refl True this] have "g' = g1\<lparr>matrix := matrix g'\<rparr>" .
    then show ?thesis by (rule trans) (subst f1, simp)
  next
    case False
    with 1(2) b have "g' = g1" by (simp add: revealSurroundings.simps)
    with f1 show ?thesis by simp
  qed
next
  case (2 g)
  then show ?case by simp
next
  case (3 g z zs)
  from 3(3) obtain g1 where a: "revealSurroundings g z True = Inr g1" and b: "revealEach g1 zs = Inr g'"
    by (auto split: sum.splits)
  from 3(2)[OF a b] have "g' = g1\<lparr>matrix := matrix g'\<rparr>" .
  then show ?case by (rule trans) (subst 3(1)[OF a], simp)
qed

lemma revealFirst_cases:
  assumes "revealFirst g ds = Inr (c, g', ds')"
  obtains (off) "\<not> revealFirstCell g" "g' = g" "ds' = ds" "c = (- 1, - 1)"
  | (zero) r zeroCells g1 where "revealFirstCell g" "ds = r # ds'"
      "filterZero g (safeCells g) = Inr zeroCells" "zeroFirstCell g" "zeroCells \<noteq> []"
      "elemAt zeroCells (randomIndex r (int (length zeroCells))) = Some c"
      "unmask g (Some c) = Inr g1" "revealSurroundings g1 c True = Inr g'"
  | (any) r zeroCells where "revealFirstCell g" "ds = r # ds'"
      "filterZero g (safeCells g) = Inr zeroCells" "\<not> (zeroFirstCell g \<and> zeroCells \<noteq> [])"
      "elemAt (safeCells g) (randomIndex r (int (length (safeCells g)))) = Some c"
      "unmask g (Some c) = Inr g'"
proof (cases "revealFirstCell g")
  case False
  with assms show ?thesis by (intro off) (simp_all add: revealFirst_def)
next
  case True
  with assms obtain zeroCells where fz: "filterZero g (safeCells g) = Inr zeroCells"
    by (auto simp: revealFirst_def split: sum.splits)
  with assms True obtain r rest where ds: "ds = r # rest"
    by (auto simp: revealFirst_def split: list.splits)
  show ?thesis
  proof (cases "zeroFirstCell g \<and> zeroCells \<noteq> []")
    case True
    let ?sc = "elemAt zeroCells (randomIndex r (int (length zeroCells)))"
    from assms \<open>revealFirstCell g\<close> fz ds True
    have run: "(case unmask g ?sc of Inl e \<Rightarrow> Inl e
                | Inr g1 \<Rightarrow> (case revealSurroundings g1 (the ?sc) True of Inl e \<Rightarrow> Inl e
                               | Inr g2 \<Rightarrow> Inr (the ?sc, g2, rest))) = Inr (c, g', ds')"
      by (simp add: revealFirst_def Let_def)
    then obtain g1 where u: "unmask g ?sc = Inr g1" by (auto split: sum.splits)
    then obtain c0 where sc: "?sc = Some c0" by (auto elim: unmask_Inr)
    from run u sc have "revealSurroundings g1 c0 True = Inr g'" "c0 = c" "rest = ds'"
      by (auto split: sum.splits)
    with u sc ds fz True \<open>revealFirstCell g\<close> show ?thesis by (intro zero[of r zeroCells g1]) simp_all
  next
    case False
    let ?sc = "elemAt (safeCells g) (randomIndex r (int (length (safeCells g))))"
    from assms \<open>revealFirstCell g\<close> fz ds False
    have run: "(case unmask g ?sc of Inl e \<Rightarrow> Inl e | Inr g1 \<Rightarrow> Inr (the ?sc, g1, rest)) = Inr (c, g', ds')"
      by (auto simp: revealFirst_def Let_def)
    then obtain g1 where u: "unmask g ?sc = Inr g1" by (auto split: sum.splits)
    then obtain c0 where sc: "?sc = Some c0" by (auto elim: unmask_Inr)
    from run u sc have "g1 = g'" "c0 = c" "rest = ds'" by (auto split: sum.splits)
    with u sc ds fz False \<open>revealFirstCell g\<close> show ?thesis by (intro any[of r zeroCells]) simp_all
  qed
qed

lemma revealFirst_state:
  assumes l: "rectangular l" "built l" "safeCells l = []" "populate l = Inr g"
    and r: "revealFirst g ds = Inr (c, g', ds')"
  shows "minesMasked l g'" and "g' = g\<lparr>matrix := matrix g'\<rparr>"
proof -
  note pl = populate_layout[OF l(1,4)]
  have safe: "inGrid l p \<and> \<not> mineAt l p" if "p \<in> set (safeCells g)" for p
    using that pl(3) l(3) by simp
  have tg: "types g = types l" using pl(1) by (simp add: layoutState_def)
  have start: "minesMasked l g" using pl(1,2) by (simp add: minesMasked_def)
  from r have "minesMasked l g' \<and> g' = g\<lparr>matrix := matrix g'\<rparr>"
  proof (cases rule: revealFirst_cases)
    case off
    with start show ?thesis by simp
  next
    case (any r zeroCells)
    from any(5) have "c \<in> set (safeCells g)" by (rule elemAt_set)
    then have c: "inGrid l c" "\<not> mineAt l c" using safe by simp_all
    note u = unmask_safe[OF l(1,4) c any(6)]
    have "minesMasked l g'" unfolding minesMasked_def
    proof (intro conjI allI impI)
      show "layoutState l g'" by (rule u(1))
    next
      fix p assume "inGrid l p" "mineAt l p"
      with c(2) pl(2) show "cellAt (matrix g') p = Some (annotate l p)" by (auto simp: u(2))
    qed
    moreover have "g' = g\<lparr>matrix := matrix g'\<rparr>"
    proof -
      have mg: "matrix g' = setCell (matrix g) (fst c) (snd c) (slice (annotate l c))"
        using arg_cong[OF u(3), of matrix] by simp
      show ?thesis unfolding mg by (rule u(3))
    qed
    ultimately show ?thesis ..
  next
    case (zero r zeroCells g1)
    from zero(6) have "c \<in> set zeroCells" by (rule elemAt_set)
    with filterZero_Inr[OF zero(3)]
    have cs: "c \<in> set (safeCells g)" and z: "cellAt (matrix g) c = Some (numbers (types g) ! 0)"
      by simp_all
    from cs have c: "inGrid l c" "\<not> mineAt l c" using safe by simp_all
    from z pl(2)[OF c(1)] have "annotate l c = numbers (types l) ! 0" by (simp add: tg)
    with l(2) c(2) have "mineCount l c = 0" by (rule zero_token_count)
    with c have "zeroAt l c" by (simp add: zeroAt_def)
    then have chain: "zeroChain l c c" by (rule zeroChain.seed)
    note u = unmask_safe[OF l(1,4) c zero(7)]
    have "floodState l g1 c g1" using u(1) by (simp add: floodState_def)
    from flood_fill(1)[OF l(1,2) this chain, of True] zero(8)
    have fs: "floodState l g1 c g'" by auto
    have "minesMasked l g'" unfolding minesMasked_def
    proof (intro conjI allI impI)
      show "layoutState l g'" using fs by (simp add: floodState_def)
    next
      fix p assume p: "inGrid l p" "mineAt l p"
      with fs have "cellAt (matrix g') p = cellAt (matrix g1) p" unfolding floodState_def by blast
      with p c(2) pl(2) show "cellAt (matrix g') p = Some (annotate l p)" by (auto simp: u(2))
    qed
    moreover have "g' = g\<lparr>matrix := matrix g'\<rparr>"
      by (rule trans[OF reveal_fields(1)[OF zero(8)]]) (subst u(3), simp)
    ultimately show ?thesis ..
  qed
  then show "minesMasked l g'" and "g' = g\<lparr>matrix := matrix g'\<rparr>" by simp_all
qed

subsection \<open>The configuration stays as constructed\<close>

lemma plantFrom_fields:
  "plantFrom i g ds = Inr (g', ds') \<Longrightarrow> g' = g\<lparr>matrix := matrix g'\<rparr>"
proof (induction ds arbitrary: i g rule: length_induct)
  case (1 ds)
  show ?case
  proof (cases "i < mines g")
    case False
    with "1.prems" show ?thesis by (simp add: plantFrom_done)
  next
    case True
    from plantFrom_step[OF "1.prems" True] obtain r1 r2 rest row c where
      ds: "ds = r1 # r2 # rest"
      and hit: "c = mine (types g) \<Longrightarrow> plantFrom i g rest = Inr (g', ds')"
      and miss: "c \<noteq> mine (types g) \<Longrightarrow>
         plantFrom (i + 1)
           (g\<lparr>matrix := setCell (matrix g) (randomIndex r1 (rows g)) (randomIndex r2 (columns g))
                           (mine (types g))\<rparr>) rest = Inr (g', ds')"
      by blast
    have shorter: "length rest < length ds" by (simp add: ds)
    show ?thesis
    proof (cases "c = mine (types g)")
      case True
      from "1.IH"[rule_format, OF shorter hit[OF True]] show ?thesis .
    next
      case False
      from "1.IH"[rule_format, OF shorter miss[OF False]] show ?thesis by (rule trans) simp
    qed
  qed
qed

lemma getNumberOfMines_fields:
  "getNumberOfMines g x y = Inr (v, g') \<Longrightarrow> g' = g\<lparr>safeCells := safeCells g'\<rparr>"
  by (auto simp: getNumberOfMines_def Let_def split: option.splits if_splits sum.splits)

lemma populateRow_fields:
  "populateRow g x y cols = Inr (vs, g') \<Longrightarrow> g' = g\<lparr>safeCells := safeCells g'\<rparr>"
proof (induction cols arbitrary: g y vs)
  case Nil
  then show ?case by simp
next
  case (Cons col cols)
  from Cons.prems obtain v g1 vs1 where a: "getNumberOfMines g x y = Inr (v, g1)"
    and b: "populateRow g1 x (y + 1) cols = Inr (vs1, g')"
    by (auto split: sum.splits prod.splits)
  from Cons.IH[OF b] have "g' = g1\<lparr>safeCells := safeCells g'\<rparr>" .
  then show ?case by (rule trans) (subst getNumberOfMines_fields[OF a], simp)
qed

lemma populateRows_fields:
  "populateRows g x rws = Inr (m, g') \<Longrightarrow> g' = g\<lparr>safeCells := safeCells g'\<rparr>"
proof (induction rws arbitrary: g x m)
  case Nil
  then show ?case by simp
next
  case (Cons row rws)
  from Cons.prems obtain r g1 rs where a: "populateRow g x 0 row = Inr (r, g1)"
    and b: "populateRows g1 (x + 1) rws = Inr (rs, g')"
    by (auto split: sum.splits prod.splits)
  from Cons.IH[OF b] have "g' = g1\<lparr>safeCells := safeCells g'\<rparr>" .
  then show ?case by (rule trans) (subst populateRow_fields[OF a], simp)
qed

lemma populate_fields:
  assumes "populate g = Inr g'"
  shows "g' = g\<lparr>safeCells := safeCells g', matrix := matrix g'\<rparr>"
proof -
  from assms obtain m g1 where a: "populateRows g 0 (matrix g) = Inr (m, g1)" and g': "g' = g1\<lparr>matrix := m\<rparr>"
    by (auto simp: populate_def split: sum.splits prod.splits)
  show ?thesis unfolding g' by (subst populateRows_fields[OF a]) simp
qed

lemma unmask_fields: "unmask g sc = Inr g' \<Longrightarrow> g' = g\<lparr>matrix := matrix g'\<rparr>"
  by (auto elim!: unmask_Inr)

lemma revealFirst_fields:
  assumes "revealFirst g ds = Inr (c, g', ds')"
  shows "g' = g\<lparr>matrix := matrix g'\<rparr>"
  using assms
proof (cases rule: revealFirst_cases)
  case off
  then show ?thesis by simp
next
  case (zero r zeroCells g1)
  show ?thesis
    by (rule trans[OF reveal_fields(1)[OF zero(8)]]) (subst unmask_fields[OF zero(7)], simp)
next
  case (any r zeroCells)
  then show ?thesis by (simp add: unmask_fields)
qed

text \<open>The stages of a run that returns a board.\<close>

lemma start_stages:
  assumes "start g ds = Inr (out, g', ds')" "number (mines g * 2) < number (rows g * columns g)"
  obtains g1 l ds2 g3 c where "generateEmptyMatrix g = Inr g1" "plantMines g1 ds = Inr (l, ds2)"
    "populate l = Inr g3" "revealFirst g3 ds2 = Inr (c, g', ds')"
    "out = (case returnType g' of
              Emoji \<Rightarrow> Str (getTextRepresentation g')
            | Code \<Rightarrow> Str (''```'' @ getTextRepresentation g' @ ''```'')
            | Matrix \<Rightarrow> Grid (matrix g'))"
  using assms by (auto simp: start_def split: sum.splits prod.splits if_splits)

lemma start_fields:
  assumes "start g ds = Inr (out, g', ds')"
  shows "g' = g\<lparr>safeCells := safeCells g', matrix := matrix g'\<rparr>"
proof (cases "number (mines g * 2) < number (rows g * columns g)")
  case False
  with assms show ?thesis by (simp add: start_def)
next
  case True
  from assms True obtain g1 l ds2 g3 c where s: "generateEmptyMatrix g = Inr g1"
    "plantMines g1 ds = Inr (l, ds2)" "populate l = Inr g3" "revealFirst g3 ds2 = Inr (c, g', ds')"
    by (rule start_stages)
  have 1: "g1 = g\<lparr>matrix := matrix g1\<rparr>"
    using generateRows_result[OF s(1)[unfolded generateEmptyMatrix_def]] by simp
  have 2: "l = g1\<lparr>matrix := matrix l\<rparr>" using s(2) unfolding plantMines_def by (rule plantFrom_fields)
  note 3 = populate_fields[OF s(3)] and 4 = revealFirst_fields[OF s(4)]
  have "safeCells g' = safeCells g3" using arg_cong[OF 4, of safeCells] by simp
  then have "g' = g3\<lparr>safeCells := safeCells g', matrix := matrix g'\<rparr>" by (subst 4) simp
  also have "\<dots> = l\<lparr>safeCells := safeCells g', matrix := matrix g'\<rparr>" by (subst 3) simp
  also have "\<dots> = g1\<lparr>safeCells := safeCells g', matrix := matrix g'\<rparr>" by (subst 2) simp
  also have "\<dots> = g\<lparr>safeCells := safeCells g', matrix := matrix g'\<rparr>" by (subst 1) simp
  finally show ?thesis .
qed

section \<open>Example configurations\<close>

definition noOpts :: MinesweeperOpts where
  "noOpts = \<lparr> opt_rows = None, opt_columns = None, opt_mines = None, opt_emote = None,
               opt_revealFirstCell = None, opt_zeroFirstCell = None, opt_spaces = None,
               opt_returnType = None, opt_rng = None \<rparr>"

definition small :: "int \<Rightarrow> int \<Rightarrow> int \<Rightarrow> MinesweeperOpts" where
  "small r c m = noOpts\<lparr>opt_rows := Some r, opt_columns := Some c, opt_mines := Some m\<rparr>"


text \<open>A generator as constructed, holding the given grid.\<close>

definition withGrid :: "MinesweeperOpts \<Rightarrow> string list list \<Rightarrow> Minesweeper" where
  "withGrid opts m = (constructor (Some opts))\<lparr>matrix := m\<rparr>"

text \<open>A grid of 3 by 3 cells with mines in the first column, at the top and at the bottom.\<close>

definition twoMines :: Minesweeper where
  "twoMines = withGrid (small 3 3 2)
     [[''|| :boom: ||'', ''|| :zero: ||'', ''|| :zero: ||''],
      [''|| :zero: ||'', ''|| :zero: ||'', ''|| :zero: ||''],
      [''|| :boom: ||'', ''|| :zero: ||'', ''|| :zero: ||'']]"

text \<open>The number of unmasked cells, as the tests count them.\<close>

definition revealedCells :: "Minesweeper \<Rightarrow> nat" where
  "revealedCells g = countCells (\<lambda>t. \<not> isSpoiler t) (matrix g)"

text \<open>A grid of 2 by 2 cells with one mine, on a generator that reveals a first cell.\<close>

definition oneMine :: Minesweeper where
  "oneMine = withGrid ((small 2 2 1)\<lparr>opt_revealFirstCell := Some True\<rparr>)
     [[''|| :boom: ||'', ''|| :zero: ||''],
      [''|| :zero: ||'', ''|| :zero: ||'']]"

section \<open>The specified properties\<close>

subsection \<open>The validity gate\<close>

lemma start_gate_closed:
  "number (rows g * columns g) \<le> number (mines g * 2) \<Longrightarrow> start g ds = Inr (Null, g, ds)"
  by (simp add: start_def)


subsection \<open>A mine count of zero\<close>

text \<open>
  C8 (the code departs from it): for rows 2, columns 2, mines 0 and spacing on, the
  constructor replaces the mine count 0 by the default 10, so that \<open>4 \<le> 20\<close> and \<open>start\<close>
  returns null, whatever \<open>Math.random\<close> would return, instead of the text of a 2 by 2 grid of
  zeros.
\<close>

theorem mines_zero_becomes_ten:
  "mines (constructor (Some ((small 2 2 0)\<lparr>opt_spaces := Some True\<rparr>))) = 10 \<and>
   start (constructor (Some ((small 2 2 0)\<lparr>opt_spaces := Some True\<rparr>))) ds
     = Inr (Null, constructor (Some ((small 2 2 0)\<lparr>opt_spaces := Some True\<rparr>)), ds)"
proof -
  let ?g = "constructor (Some ((small 2 2 0)\<lparr>opt_spaces := Some True\<rparr>))"
  have m: "mines ?g = 10" by code_simp
  have "number (rows ?g * columns ?g) \<le> number (mines ?g * 2)" by code_simp
  then have "start ?g ds = Inr (Null, ?g, ds)" by (rule start_gate_closed)
  with m show ?thesis by simp
qed

subsection \<open>The random source\<close>

lemma rng_option_ignored: "constructor (Some (c\<lparr>opt_rng := r\<rparr>)) = constructor (Some c)"
  by (simp add: constructor_def)

text \<open>
  C7 (the code departs from it): the constructor reads no random source. Two generators
  built with the same configuration and the same \<open>rng\<close> still draw from \<open>Math.random\<close>, and
  give different boards when \<open>Math.random\<close> returns different numbers.
\<close>

theorem injected_rng_not_used:
  "map_sum id fst (start (constructor (Some ((small 2 2 1)\<lparr>opt_rng := Some [0, 0]\<rparr>))) [0, 0])
     = Inr (Str ''|| :boom: || || :one: ||\<newline>|| :one: || || :one: ||'') \<and>
   map_sum id fst (start (constructor (Some ((small 2 2 1)\<lparr>opt_rng := Some [0, 0]\<rparr>))) [1 / 2, 1 / 2])
     = Inr (Str ''|| :one: || || :one: ||\<newline>|| :one: || || :boom: ||'')"
  by code_simp

subsection \<open>Neighbor annotation\<close>

text \<open>
  C2: on every grid of \<open>rows\<close> by \<open>columns\<close> cells \<open>populate\<close> returns, and it leaves in every
  cell that is no mine the number token for the count of the mines among the cell's eight
  neighbours inside the grid; the mines stay as they are.
\<close>

theorem populate_counts_mined_neighbours:
  assumes "rectangular g" "built g"
  shows "\<exists>g'. populate g = Inr g' \<and>
           (\<forall>p. inGrid g p \<longrightarrow>
              (if mineAt g p then cellAt (matrix g') p = Some (mine (types g))
               else mineCount g p \<le> 8 \<and>
                    cellAt (matrix g') p = Some (spoilerize g (numberNames ! mineCount g p))))"
proof -
  from populate_result[OF assms(1)] obtain g' where p: "populate g = Inr g'" by blast
  note pl = populate_layout[OF assms(1) p]
  have "if mineAt g q then cellAt (matrix g') q = Some (mine (types g))
        else mineCount g q \<le> 8 \<and> cellAt (matrix g') q = Some (spoilerize g (numberNames ! mineCount g q))"
    if "inGrid g q" for q
  proof (cases "mineAt g q")
    case True
    with pl(2)[OF that] show ?thesis by (simp add: annotate_def)
  next
    case False
    with pl(2)[OF that] number_token(1)[OF assms(2) False] mineCount_le[of g q]
    show ?thesis by (simp add: spoilerize_def)
  qed
  with p show ?thesis by blast
qed

theorem populate_counts_mined_neighbours_witness:
  "rectangular twoMines \<and>
   built twoMines \<and>
   (\<exists>g'. populate twoMines = Inr g' \<and>
      cellAt (matrix g') (1, 1) = Some ''|| :two: ||'')"
proof -
  let ?g = twoMines
  have r: "rectangular ?g" by code_simp
  have b: "built ?g" by code_simp
  have c: "inGrid ?g (1, 1)" "\<not> mineAt ?g (1, 1)" by code_simp+
  have n: "spoilerize ?g (numberNames ! mineCount ?g (1, 1)) = ''|| :two: ||''" by code_simp
  from populate_counts_mined_neighbours[OF r b] obtain g' where p: "populate ?g = Inr g'"
    and every: "\<forall>p. inGrid ?g p \<longrightarrow>
              (if mineAt ?g p then cellAt (matrix g') p = Some (mine (types ?g))
               else mineCount ?g p \<le> 8 \<and>
                    cellAt (matrix g') p = Some (spoilerize ?g (numberNames ! mineCount ?g p)))"
    by blast
  from every[rule_format, OF c(1)] c(2) have "cellAt (matrix g') (1, 1) = Some ''|| :two: ||''"
    by (simp only: if_False n)
  with p have "\<exists>g'. populate ?g = Inr g' \<and> cellAt (matrix g') (1, 1) = Some ''|| :two: ||''" by blast
  with r b show ?thesis by (intro conjI)
qed


subsection \<open>Flood fill\<close>

lemma populated_flood:
  assumes l: "rectangular l" "built l" "populate l = Inr g" and s: "zeroAt l s"
  shows "\<exists>g'. revealSurroundings g s True = Inr g' \<and> floodState l g s g'
           \<and> expansions g s True + maskedZeros g' \<le> 1 + maskedZeros g"
proof -
  note pl = populate_layout[OF l(1,3)]
  have "floodState l g s g" using pl(1) by (simp add: floodState_def)
  moreover have "zeroChain l s s" using s by (rule zeroChain.seed)
  ultimately show ?thesis by (rule flood_fill(1)[OF l(1,2)])
qed

lemma outside_grid:
  assumes "layoutState l g" "rectangular l" "\<not> inGrid l p"
  shows "cellAt (matrix g) p = None"
proof -
  from assms(1) have r: "rectangular g" and d: "rows g = rows l" "columns g = columns l"
    by (simp_all add: layoutState_def)
  from d have "inGrid g = inGrid l" by (rule inGrid_cong)
  with assms(3) rectangular_cellAt[OF r, of p] show ?thesis by simp
qed

lemma flood_changes:
  assumes l: "rectangular l" "built l" "populate l = Inr g"
    and f: "floodState l g s g'" and d: "cellAt (matrix g') p \<noteq> cellAt (matrix g) p"
  shows "inGrid l p" "\<not> mineAt l p" "\<exists>z. zeroChain l s z \<and> near z p"
    "cellAt (matrix g) p = Some (annotate l p)" "cellAt (matrix g') p = Some (slice (annotate l p))"
proof -
  note pl = populate_layout[OF l(1,3)]
  from f have ls: "layoutState l g'" by (simp add: floodState_def)
  show p: "inGrid l p"
  proof (rule ccontr)
    assume "\<not> inGrid l p"
    with outside_grid[OF ls l(1)] outside_grid[OF pl(1) l(1)] d show False by simp
  qed
  from f p d show "\<not> mineAt l p" "\<exists>z. zeroChain l s z \<and> near z p"
    "cellAt (matrix g') p = Some (slice (annotate l p))"
    unfolding floodState_def by blast+
  show "cellAt (matrix g) p = Some (annotate l p)" by (rule pl(2)[OF p])
qed

text \<open>
  C3: on a populated board, the flood fill from a cell that is no mine and has no mine
  next to it returns, and every cell it changes is no mine and lies in the 3 by 3 block
  around a cell that a chain of adjacent zero-count cells joins to the seed.
\<close>

theorem flood_fill_spares_mines:
  assumes "rectangular l" "built l" "populate l = Inr g" "zeroAt l s"
  shows "\<exists>g'. revealSurroundings g s True = Inr g' \<and>
           (\<forall>p. cellAt (matrix g') p \<noteq> cellAt (matrix g) p \<longrightarrow>
              \<not> mineAt l p \<and> (\<exists>z. zeroChain l s z \<and> near z p))"
proof -
  from populated_flood[OF assms] obtain g' where r: "revealSurroundings g s True = Inr g'"
    and f: "floodState l g s g'" by blast
  have "\<not> mineAt l p \<and> (\<exists>z. zeroChain l s z \<and> near z p)"
    if "cellAt (matrix g') p \<noteq> cellAt (matrix g) p" for p
    using flood_changes(2,3)[OF assms(1-3) f that] by (rule conjI)
  then have "\<forall>p. cellAt (matrix g') p \<noteq> cellAt (matrix g) p \<longrightarrow>
              \<not> mineAt l p \<and> (\<exists>z. zeroChain l s z \<and> near z p)" by (intro allI impI)
  with r show ?thesis by (intro exI[of _ g'] conjI)
qed

text \<open>
  C4: on a populated board, the flood fill from a zero-count cell returns after at most one
  call of \<open>revealSurroundings\<close> more than the board has masked zero cells, and every cell it
  changes was masked before and is unmasked after, so that no later sweep touches it.
\<close>

theorem flood_fill_terminates:
  assumes "rectangular l" "built l" "populate l = Inr g" "zeroAt l s"
  shows "\<exists>g'. revealSurroundings g s True = Inr g' \<and>
           expansions g s True \<le> 1 + maskedZeros g \<and>
           (\<forall>p. cellAt (matrix g') p \<noteq> cellAt (matrix g) p \<longrightarrow>
              (\<exists>t. cellAt (matrix g) p = Some t \<and> isSpoiler t \<and>
                   cellAt (matrix g') p = Some (slice t) \<and> \<not> isSpoiler (slice t)))"
proof -
  from populated_flood[OF assms] obtain g' where r: "revealSurroundings g s True = Inr g'"
    and f: "floodState l g s g'" and e: "expansions g s True + maskedZeros g' \<le> 1 + maskedZeros g"
    by blast
  have "\<exists>t. cellAt (matrix g) p = Some t \<and> isSpoiler t \<and>
            cellAt (matrix g') p = Some (slice t) \<and> \<not> isSpoiler (slice t)"
    if "cellAt (matrix g') p \<noteq> cellAt (matrix g) p" for p
  proof (intro exI[of _ "annotate l p"] conjI)
    note c = flood_changes(2,4,5)[OF assms(1-3) f that]
    show "cellAt (matrix g) p = Some (annotate l p)" by (rule c(2))
    show "isSpoiler (annotate l p)" by (rule token_isSpoiler[OF assms(2)])
    show "cellAt (matrix g') p = Some (slice (annotate l p))" by (rule c(3))
    show "\<not> isSpoiler (slice (annotate l p))" by (rule number_revealed[OF assms(2) c(1)])
  qed
  then have "\<forall>p. cellAt (matrix g') p \<noteq> cellAt (matrix g) p \<longrightarrow>
              (\<exists>t. cellAt (matrix g) p = Some t \<and> isSpoiler t \<and>
                   cellAt (matrix g') p = Some (slice t) \<and> \<not> isSpoiler (slice t))" by (intro allI impI)
  moreover from e have "expansions g s True \<le> 1 + maskedZeros g" by simp
  ultimately show ?thesis using r by (intro exI[of _ g'] conjI)
qed

theorem flood_fill_spares_mines_witness:
  "rectangular twoMines \<and> built twoMines \<and> zeroAt twoMines (0, 2) \<and>
   (\<exists>g g'. populate twoMines = Inr g \<and> revealSurroundings g (0, 2) True = Inr g' \<and>
      cellAt (matrix g') (0, 0) = Some ''|| :boom: ||'')"
proof -
  have r: "rectangular twoMines" by code_simp
  have b: "built twoMines" by code_simp
  have z: "zeroAt twoMines (0, 2)" by code_simp
  have m: "inGrid twoMines (0, 0)" "mineAt twoMines (0, 0)"
    "annotate twoMines (0, 0) = ''|| :boom: ||''" by code_simp+
  from populate_result[OF r] obtain g where p: "populate twoMines = Inr g" by blast
  from flood_fill_spares_mines[OF r b p z] obtain g' where
    f: "revealSurroundings g (0, 2) True = Inr g'"
    and s: "\<forall>p. cellAt (matrix g') p \<noteq> cellAt (matrix g) p \<longrightarrow>
              \<not> mineAt twoMines p \<and> (\<exists>z. zeroChain twoMines (0, 2) z \<and> near z p)" by blast
  from s m(2) have "cellAt (matrix g') (0, 0) = cellAt (matrix g) (0, 0)" by blast
  with populate_layout(2)[OF r p m(1)] m(3) have "cellAt (matrix g') (0, 0) = Some ''|| :boom: ||''"
    by simp
  with p f have "\<exists>g g'. populate twoMines = Inr g \<and> revealSurroundings g (0, 2) True = Inr g' \<and>
      cellAt (matrix g') (0, 0) = Some ''|| :boom: ||''" by blast
  with r b z show ?thesis by (intro conjI)
qed

theorem flood_fill_terminates_witness:
  "rectangular twoMines \<and> built twoMines \<and> zeroAt twoMines (0, 2) \<and>
   (\<exists>g g'. populate twoMines = Inr g \<and> revealSurroundings g (0, 2) True = Inr g' \<and>
      expansions g (0, 2) True \<le> 1 + maskedZeros g)"
proof -
  have r: "rectangular twoMines" by code_simp
  have b: "built twoMines" by code_simp
  have z: "zeroAt twoMines (0, 2)" by code_simp
  from populate_result[OF r] obtain g where p: "populate twoMines = Inr g" by blast
  from flood_fill_terminates[OF r b p z] obtain g' where
    "revealSurroundings g (0, 2) True = Inr g'" "expansions g (0, 2) True \<le> 1 + maskedZeros g"
    by blast
  with p have "\<exists>g g'. populate twoMines = Inr g \<and> revealSurroundings g (0, 2) True = Inr g' \<and>
      expansions g (0, 2) True \<le> 1 + maskedZeros g" by blast
  with r b z show ?thesis by (intro conjI)
qed

subsection \<open>A whole run\<close>

lemma spoilerize_matrix_update [simp]: "spoilerize (g\<lparr>matrix := m\<rparr>) = spoilerize g"
  by (simp add: fun_eq_iff spoilerize_def)

lemma built_matrix_update [simp]: "built (g\<lparr>matrix := m\<rparr>) = built g"
  by (simp add: built_def)

lemma constructor_fresh:
  "matrix (constructor opts) = []" "safeCells (constructor opts) = []" "mines (constructor opts) \<noteq> 0"
  by (simp_all add: constructor_def Let_def orNumber_def split: option.splits)

text \<open>
  What the stages of a run that returns a board establish, on a generator as constructed:
  \<open>l\<close> is the generator when the mines are placed, \<open>L\<close> the cells that received one.
\<close>

lemma run_layout:
  assumes g: "built g" "matrix g = []" "safeCells g = []" "0 \<le> rows g"
    and run: "start g ds = Inr (out, g', ds')" "number (mines g * 2) < number (rows g * columns g)"
  obtains g1 l ds2 L where "generateEmptyMatrix g = Inr g1" "plantMines g1 ds = Inr (l, ds2)"
    "rectangular l" "built l" "rows l = rows g" "columns l = columns g" "types l = types g"
    "minesMasked l g'" "l = g\<lparr>matrix := matrix l\<rparr>"
    "distinct L" "int (length L) = max 0 (mines g)" "\<forall>p \<in> set L. inGrid l p \<and> mineAt l p"
    "\<forall>p. inGrid l p \<longrightarrow> p \<notin> set L \<longrightarrow> cellAt (matrix l) p = Some (numbers (types g) ! 0)"
proof -
  from run obtain g1 l ds2 g3 c where s: "generateEmptyMatrix g = Inr g1"
    "plantMines g1 ds = Inr (l, ds2)" "populate l = Inr g3" "revealFirst g3 ds2 = Inr (c, g', ds')"
    by (rule start_stages)
  note e = generateEmptyMatrix_fresh[OF s(1) g(2,4)]
  have g1: "g1 = g\<lparr>matrix := matrix g1\<rparr>"
    using generateRows_result[OF s(1)[unfolded generateEmptyMatrix_def]] by simp
  from e have r1: "rectangular g1" by simp
  from plantFrom_result[OF s(2)[unfolded plantMines_def] r1] obtain L where
    L: "distinct L" "int (length L) = max 0 (mines g1 - 0)"
      "\<forall>p \<in> set L. inGrid g1 p \<and> \<not> mineAt g1 p \<and> mineAt l p"
      "\<forall>p. p \<notin> set L \<longrightarrow> cellAt (matrix l) p = cellAt (matrix g1) p"
      "rectangular l" and l: "l = g1\<lparr>matrix := matrix l\<rparr>" by blast
  have f: "rows l = rows g" "columns l = columns g" "types l = types g" "safeCells l = []" "mines g1 = mines g"
    using arg_cong[OF l, of rows] arg_cong[OF l, of columns] arg_cong[OF l, of types]
      arg_cong[OF l, of safeCells] e g(3) by simp_all
  have b: "built l" by (subst l, subst g1) (simp add: g(1))
  from e have e1: "rows g1 = rows g" "columns g1 = columns g" by simp_all
  have same: "inGrid l = inGrid g" "inGrid g1 = inGrid g"
    by (rule inGrid_cong[OF f(1,2)], rule inGrid_cong[OF e1])
  note m = revealFirst_state(1)[OF L(5) b f(4) s(3,4)]
  have "\<forall>p \<in> set L. inGrid l p \<and> mineAt l p" using L(3) same by simp
  moreover have "\<forall>p. inGrid l p \<longrightarrow> p \<notin> set L \<longrightarrow> cellAt (matrix l) p = Some (numbers (types g) ! 0)"
    using L(4) e same by simp
  moreover have "int (length L) = max 0 (mines g)" using L(2) f(5) by simp
  moreover have "l = g\<lparr>matrix := matrix l\<rparr>" by (rule trans[OF l]) (subst g1, simp)
  ultimately show thesis using that[OF s(1,2) L(5) b f(1,2,3) m _ L(1)] by blast
qed

lemma grid_cell:
  assumes "rectangular g" "row \<in> set (matrix g)" "t \<in> set row"
  obtains p where "inGrid g p" "cellAt (matrix g) p = Some t"
proof -
  from assms(2) obtain i where i: "i < length (matrix g)" "matrix g ! i = row"
    by (auto simp: in_set_conv_nth)
  from assms(3) obtain j where j: "j < length row" "row ! j = t"
    by (auto simp: in_set_conv_nth)
  have "cellAt (matrix g) (int i, int j) = Some t"
    using i j by (simp add: cellAt_def elemAt_def)
  moreover from this have "inGrid g (int i, int j)"
    using rectangular_cellAt[OF assms(1), of "(int i, int j)"] by simp
  ultimately show thesis by (rule that[rotated])
qed

lemma card_grid: "card {p. inGrid g p} = nat (rows g) * nat (columns g)"
proof -
  have "{p. inGrid g p} = {0..<rows g} \<times> {0..<columns g}"
    by (auto simp: inGrid_def)
  then show ?thesis by (simp add: card_cartesian_product)
qed



lemma gate_open:
  assumes "start g ds = Inr (out, g', ds')" "out \<noteq> Null"
  shows "number (mines g * 2) < number (rows g * columns g)"
proof (rule ccontr)
  assume "\<not> number (mines g * 2) < number (rows g * columns g)"
  then have "start g ds = Inr (Null, g, ds)" by (intro start_gate_closed) simp
  with assms show False by simp
qed

subsection \<open>Rendering\<close>

text \<open>
  C9, as the code has it: in the grid of a run that returned a board, every cell is the
  mine token, or the token of a number, or the token of a number without its first two and
  last two characters; the text joins the cells of a row, and the rows with a newline. An
  unmasked cell is \<open>:name:\<close> when \<open>spaces\<close> is off and \<open>:name:\<close> between two spaces when it is on.
\<close>

theorem revealed_cell_is_sliced_token:
  assumes "0 \<le> rows (constructor opts)" "start (constructor opts) ds = Inr (out, g', ds')" "out \<noteq> Null"
  shows "(\<forall>row \<in> set (matrix g'). \<forall>t \<in> set row.
            t = spoilerize g' (emote g') \<or>
            (\<exists>n \<in> set numberNames. t = spoilerize g' n \<or> t = slice (spoilerize g' n))) \<and>
         (\<forall>n. slice (spoilerize g' n) = (if spaces g' then '' :'' @ n @ '': '' else '':'' @ n @ '':'')) \<and>
         getTextRepresentation g'
           = join [CHR 0x0A] (map (join (if spaces g' then [CHR '' ''] else [])) (matrix g'))"
proof -
  let ?g = "constructor opts"
  note gate = gate_open[OF assms(2,3)]
  from built_constructor constructor_fresh(1,2) assms(1,2) gate
  obtain l where l: "rectangular l" "built l" and m: "minesMasked l g'"
    and lg: "l = ?g\<lparr>matrix := matrix l\<rparr>"
    by (rule run_layout)
  note sf = start_fields[OF assms(2)]
  have f: "spaces g' = spaces l" "emote g' = emote l"
    using arg_cong[OF sf, of spaces] arg_cong[OF sf, of emote]
      arg_cong[OF lg, of spaces] arg_cong[OF lg, of emote] by simp_all
  from m have ls: "layoutState l g'"
    and masked: "\<And>p. inGrid l p \<Longrightarrow> mineAt l p \<Longrightarrow> cellAt (matrix g') p = Some (annotate l p)"
    unfolding minesMasked_def by blast+
  from ls have r: "rectangular g'" and d: "rows g' = rows l" "columns g' = columns l"
    and cells: "\<And>p. inGrid l p \<Longrightarrow>
        cellAt (matrix g') p = Some (annotate l p) \<or> cellAt (matrix g') p = Some (slice (annotate l p))"
    unfolding layoutState_def by blast+
  have same: "inGrid g' = inGrid l" by (rule inGrid_cong[OF d])
  have "t = spoilerize g' (emote g') \<or>
        (\<exists>n \<in> set numberNames. t = spoilerize g' n \<or> t = slice (spoilerize g' n))"
    if "row \<in> set (matrix g')" "t \<in> set row" for row t
  proof -
    from r that obtain p where "inGrid g' p" and t: "cellAt (matrix g') p = Some t"
      by (rule grid_cell)
    then have p: "inGrid l p" by (simp add: same)
    show ?thesis
    proof (cases "mineAt l p")
      case True
      from masked[OF p True] t True have "t = mine (types l)" by (simp add: annotate_def)
      then show ?thesis using l(2) by (simp add: built_mine spoilerize_def f)
    next
      case False
      note tok = number_token[OF l(2) False]
      from cells[OF p] t have "t = annotate l p \<or> t = slice (annotate l p)" by auto
      then have "t = spoilerize g' (numberNames ! mineCount l p)
          \<or> t = slice (spoilerize g' (numberNames ! mineCount l p))"
        by (simp add: tok(1) spoilerize_def f)
      with tok(2) show ?thesis by blast
    qed
  qed
  moreover have "\<forall>n. slice (spoilerize g' n) = (if spaces g' then '' :'' @ n @ '': '' else '':'' @ n @ '':'')"
    by (simp add: spoilerize_def slice_spoilerizeWith)
  moreover have "getTextRepresentation g'
           = join [CHR 0x0A] (map (join (if spaces g' then [CHR '' ''] else [])) (matrix g'))"
    by (simp add: getTextRepresentation_def)
  ultimately show ?thesis by blast
qed

text \<open>
  C9 as stated fails when \<open>spaces\<close> is on: the unmasked cell keeps the two spaces of the
  wrapper, and the text shows \<open>:one:\<close> between three spaces on the left and two on the right
  of it, where two masked cells are one space apart.
\<close>

theorem revealed_cell_keeps_spaces:
  "map_sum id fst
     (start (constructor (Some ((small 1 3 1)\<lparr>opt_revealFirstCell := Some True,
                                            opt_zeroFirstCell := Some False\<rparr>))) [0, 0, 0])
     = Inr (Str ''|| :boom: ||  :one:  || :zero: ||'') \<and>
   slice (spoilerizeWith True ''one'') = '' :one: ''"
  by code_simp

theorem revealed_cell_is_sliced_token_witness:
  "0 \<le> rows (constructor (Some (small 2 2 1))) \<and>
   (\<exists>out g' ds'. start (constructor (Some (small 2 2 1))) [0, 0] = Inr (out, g', ds') \<and> out \<noteq> Null \<and>
      slice (spoilerize g' ''one'') = '' :one: '')"
proof -
  let ?g = "constructor (Some (small 2 2 1))"
  let ?r = "projr (start ?g [0, 0])"
  have h: "0 \<le> rows ?g" by code_simp
  have run: "start ?g [0, 0] = Inr (fst ?r, fst (snd ?r), snd (snd ?r))" by code_simp
  have out: "fst ?r \<noteq> Null" by code_simp
  have sp: "spaces (fst (snd ?r))" by code_simp
  from revealed_cell_is_sliced_token[OF h run out] sp
  have "slice (spoilerize (fst (snd ?r)) ''one'') = '' :one: ''" by simp
  with run out have "\<exists>out g' ds'. start ?g [0, 0] = Inr (out, g', ds') \<and> out \<noteq> Null \<and>
      slice (spoilerize g' ''one'') = '' :one: ''" by blast
  with h show ?thesis by (intro conjI)
qed

subsection \<open>The first reveal without flood fill\<close>

text \<open>Without a zero-count cell on the board the filter of \<open>revealFirst\<close> keeps nothing.\<close>

lemma no_zero_no_seed:
  assumes "rectangular l" "built l" "safeCells l = []" "populate l = Inr g" "\<forall>p. \<not> zeroAt l p"
  shows "filterZero g (safeCells g) = Inr []"
proof -
  note pl = populate_layout[OF assms(1,4)]
  have safe: "inGrid l p \<and> \<not> mineAt l p" if "p \<in> set (safeCells g)" for p
    using that pl(3) assms(3) by simp
  have tg: "types g = types l" using pl(1) by (simp add: layoutState_def)
  have "\<forall>c \<in> set (safeCells g). elemAt (matrix g) (fst c) \<noteq> None"
  proof
    fix c assume "c \<in> set (safeCells g)"
    with safe have "inGrid l c" by simp
    from cellAt_SomeD[OF pl(2)[OF this]] show "elemAt (matrix g) (fst c) \<noteq> None" by auto
  qed
  then obtain zs where fz: "filterZero g (safeCells g) = Inr zs" using filterZero_returns by blast
  have "zs = []"
  proof (rule ccontr)
    assume "zs \<noteq> []"
    then obtain c where "c \<in> set zs" by (cases zs) auto
    with filterZero_Inr[OF fz]
    have cs: "c \<in> set (safeCells g)" and z: "cellAt (matrix g) c = Some (numbers (types g) ! 0)"
      by simp_all
    from cs have c: "inGrid l c" "\<not> mineAt l c" using safe by simp_all
    from z pl(2)[OF c(1)] have "annotate l c = numbers (types l) ! 0" by (simp add: tg)
    with assms(2) c(2) have "mineCount l c = 0" by (rule zero_token_count)
    with c have "zeroAt l c" by (simp add: zeroAt_def)
    with assms(5) show False by blast
  qed
  with fz show ?thesis by simp
qed

text \<open>On a board of 2 by 2 cells every cell is next to every other: one mine leaves no zero.\<close>

lemma two_by_two_no_zero:
  assumes "rows l = 2" "columns l = 2" "inGrid l m" "mineAt l m"
  shows "\<not> zeroAt l p"
proof
  assume z: "zeroAt l p"
  then have "inGrid l p" by (simp add: zeroAt_def)
  with assms(1-3) have "near p m" by (auto simp: inGrid_def near_def)
  with z have "\<not> mineAt l m" using assms(3) by (rule zero_no_mine_near)
  with assms(4) show False by simp
qed

lemma safe_cell_registered:
  assumes "rectangular l" "populate l = Inr g" "inGrid l p" "\<not> mineAt l p"
  shows "safeCells g \<noteq> []"
proof -
  from populate_layout(3)[OF assms(1,2)] assms(3,4) have "p \<in> set (safeCells g)" by simp
  then show ?thesis by auto
qed

lemma revealFirst_any:
  assumes "rectangular l" "built l" "safeCells l = []" "populate l = Inr g"
    and "revealFirstCell g" "\<not> zeroFirstCell g \<or> filterZero g (safeCells g) = Inr []"
    and "safeCells g \<noteq> []" "0 \<le> r" "r < 1"
  shows "\<exists>c g'. revealFirst g (r # ds) = Inr (c, g', ds) \<and>
           elemAt (safeCells g) (randomIndex r (int (length (safeCells g)))) = Some c \<and>
           c \<in> set (safeCells g) \<and> inGrid l c \<and> \<not> mineAt l c \<and>
           g' = g\<lparr>matrix := setCell (matrix g) (fst c) (snd c) (slice (annotate l c))\<rparr> \<and>
           (\<forall>p. p \<noteq> c \<longrightarrow> cellAt (matrix g') p = cellAt (matrix g) p) \<and>
           isSpoiler (annotate l c) \<and> \<not> isSpoiler (slice (annotate l c)) \<and>
           revealedCells g' = 1"
proof -
  note pl = populate_layout[OF assms(1,4)]
  have safe: "inGrid l p \<and> \<not> mineAt l p" if "p \<in> set (safeCells g)" for p
    using that pl(3) assms(3) by simp
  have "\<forall>c \<in> set (safeCells g). elemAt (matrix g) (fst c) \<noteq> None"
  proof
    fix c assume "c \<in> set (safeCells g)"
    with safe have "inGrid l c" by simp
    from cellAt_SomeD[OF pl(2)[OF this]] show "elemAt (matrix g) (fst c) \<noteq> None" by auto
  qed
  then obtain zs where fz: "filterZero g (safeCells g) = Inr zs" using filterZero_returns by blast
  with assms(6) have branch: "\<not> (zeroFirstCell g \<and> length zs > 0)" by auto
  let ?n = "int (length (safeCells g))"
  let ?i = "randomIndex r ?n"
  have n: "0 < ?n" using assms(7) by simp
  note i = randomIndex_range[OF assms(8,9) n]
  define c where "c = safeCells g ! nat ?i"
  have pick: "elemAt (safeCells g) ?i = Some c" using i by (simp add: elemAt_def c_def)
  then have cs: "c \<in> set (safeCells g)" by (rule elemAt_set)
  with safe have c: "inGrid l c" "\<not> mineAt l c" by simp_all
  from cellAt_SomeD[OF pl(2)[OF c(1)]] obtain row where row: "elemAt (matrix g) (fst c) = Some row"
    and t: "elemAt row (snd c) = Some (annotate l c)" by blast
  define g' where "g' = g\<lparr>matrix := setCell (matrix g) (fst c) (snd c) (slice (annotate l c))\<rparr>"
  have u: "unmask g (Some c) = Inr g'" using row t by (simp add: unmask_def g'_def)
  have run: "revealFirst g (r # ds) = Inr (c, g', ds)"
  proof (cases "zeroFirstCell g")
    case True
    with branch have "zs = []" by simp
    with assms(5) fz pick u show ?thesis by (simp add: revealFirst_def Let_def)
  next
    case False
    with assms(5) fz pick u show ?thesis by (simp add: revealFirst_def Let_def)
  qed
  note us = unmask_safe[OF assms(1,4) c u]
  have sp: "isSpoiler (annotate l c)" by (rule token_isSpoiler[OF assms(2)])
  have ns: "\<not> isSpoiler (slice (annotate l c))" by (rule number_revealed[OF assms(2) c(2)])
  have "revealedCells g' = 1"
    using us(4)[of "\<lambda>t. \<not> isSpoiler t"] populated_all_masked[OF assms(1,2,4)] sp ns
    by (simp add: revealedCells_def)
  moreover have "\<forall>p. p \<noteq> c \<longrightarrow> cellAt (matrix g') p = cellAt (matrix g) p" by (simp add: us(2))
  ultimately show ?thesis using run pick cs c sp ns g'_def by blast
qed

text \<open>
  C6: on a populated board with a safe cell, when a first cell is to be revealed and
  \<open>zeroFirstCell\<close> is off or the board has no zero-count safe cell (as every board of 2 by 2
  cells with a mine), \<open>revealFirst\<close> returns the coordinate of the cell of the registry that
  the random number selects, which is no mine; it changes that cell only, by unmasking it,
  and exactly one cell of the grid is unmasked afterwards.
\<close>

theorem revealFirst_unmasks_one_safe_cell:
  assumes "rectangular l" "built l" "safeCells l = []" "populate l = Inr g"
    and "revealFirstCell g"
    and "\<not> zeroFirstCell g \<or> (\<forall>p. \<not> zeroAt l p) \<or>
         (rows l = 2 \<and> columns l = 2 \<and> (\<exists>m. inGrid l m \<and> mineAt l m))"
    and "\<exists>p. inGrid l p \<and> \<not> mineAt l p" "0 \<le> r" "r < 1"
  shows "\<exists>c g'. revealFirst g (r # ds) = Inr (c, g', ds) \<and>
           elemAt (safeCells g) (randomIndex r (int (length (safeCells g)))) = Some c \<and>
           c \<in> set (safeCells g) \<and> inGrid l c \<and> \<not> mineAt l c \<and>
           g' = g\<lparr>matrix := setCell (matrix g) (fst c) (snd c) (slice (annotate l c))\<rparr> \<and>
           (\<forall>p. p \<noteq> c \<longrightarrow> cellAt (matrix g') p = cellAt (matrix g) p) \<and>
           isSpoiler (annotate l c) \<and> \<not> isSpoiler (slice (annotate l c)) \<and>
           revealedCells g' = 1"
proof -
  from assms(7) obtain p where "inGrid l p" "\<not> mineAt l p" by blast
  with assms(1,4) have registry: "safeCells g \<noteq> []" by (rule safe_cell_registered)
  have "(\<forall>p. \<not> zeroAt l p) \<or> (rows l = 2 \<and> columns l = 2 \<and> (\<exists>m. inGrid l m \<and> mineAt l m))
          \<Longrightarrow> \<forall>p. \<not> zeroAt l p"
    using two_by_two_no_zero[of l] by blast
  with assms(6) have "\<not> zeroFirstCell g \<or> (\<forall>p. \<not> zeroAt l p)" by blast
  then have "\<not> zeroFirstCell g \<or> filterZero g (safeCells g) = Inr []"
    using no_zero_no_seed[OF assms(1-4)] by blast
  with assms(1-5) show ?thesis using registry assms(8,9) by (rule revealFirst_any)
qed

theorem revealFirst_unmasks_one_safe_cell_witness:
  "rectangular oneMine \<and> built oneMine \<and> safeCells oneMine = [] \<and>
   rows oneMine = 2 \<and> columns oneMine = 2 \<and> inGrid oneMine (0, 0) \<and> mineAt oneMine (0, 0) \<and>
   inGrid oneMine (1, 1) \<and> \<not> mineAt oneMine (1, 1) \<and> (0 :: rat) \<le> 1 / 2 \<and> (1 / 2 :: rat) < 1 \<and>
   (\<exists>g c g'. populate oneMine = Inr g \<and> revealFirstCell g \<and> zeroFirstCell g \<and>
      revealFirst g [1 / 2] = Inr (c, g', []) \<and> revealedCells g' = 1)"
proof -
  have r: "rectangular oneMine" by code_simp
  have b: "built oneMine" by code_simp
  have e: "safeCells oneMine = []" by code_simp
  have d: "rows oneMine = 2" "columns oneMine = 2" by code_simp+
  have m: "inGrid oneMine (0, 0)" "mineAt oneMine (0, 0)" by code_simp+
  have s: "inGrid oneMine (1, 1)" "\<not> mineAt oneMine (1, 1)" by code_simp+
  have p: "populate oneMine = Inr (projr (populate oneMine))" by code_simp
  have f: "revealFirstCell (projr (populate oneMine))" "zeroFirstCell (projr (populate oneMine))"
    by code_simp+
  have h: "(0 :: rat) \<le> 1 / 2" "(1 / 2 :: rat) < 1" by simp_all
  have board: "\<not> zeroFirstCell (projr (populate oneMine)) \<or> (\<forall>p. \<not> zeroAt oneMine p) \<or>
         (rows oneMine = 2 \<and> columns oneMine = 2 \<and> (\<exists>m. inGrid oneMine m \<and> mineAt oneMine m))"
    using d m by blast
  have safe: "\<exists>p. inGrid oneMine p \<and> \<not> mineAt oneMine p" using s by blast
  from revealFirst_unmasks_one_safe_cell[OF r b e p f(1) board safe h, of "[]"]
  obtain c g' where "revealFirst (projr (populate oneMine)) [1 / 2] = Inr (c, g', [])"
    "revealedCells g' = 1" by blast
  with p f have "\<exists>g c g'. populate oneMine = Inr g \<and> revealFirstCell g \<and> zeroFirstCell g \<and>
      revealFirst g [1 / 2] = Inr (c, g', []) \<and> revealedCells g' = 1" by blast
  with r b e d m s h show ?thesis by (intro conjI)
qed

subsection \<open>Runs that do not throw\<close>






subsection \<open>The mines of a run on a generator as constructed\<close>

text \<open>
  The loop of \<open>plantMines\<close> ends only when it found a cell for every mine: then the mine token
  is not the token of zero, which fills the new grid.
\<close>

lemma planted_tokens_differ:
  assumes "generateEmptyMatrix g = Inr g1" "matrix g = []" "0 \<le> rows g"
    and "plantMines g1 ds = Inr (l, ds2)" "0 < mines g"
  shows "mine (types g) \<noteq> numbers (types g) ! 0"
proof
  assume eq: "mine (types g) = numbers (types g) ! 0"
  note e = generateEmptyMatrix_fresh[OF assms(1-3)]
  have "\<forall>p t. cellAt (matrix g1) p = Some t \<longrightarrow> t = mine (types g1)"
  proof (intro allI impI)
    fix p t assume c: "cellAt (matrix g1) p = Some t"
    from e have "rectangular g1" "rows g1 = rows g" "columns g1 = columns g" by simp_all
    with c rectangular_cellAt[of g1 p] have "inGrid g p" by (simp add: inGrid_def)
    with e have "cellAt (matrix g1) p = Some (numbers (types g) ! 0)" by blast
    moreover from e have "types g1 = types g" by simp
    ultimately show "t = mine (types g1)" using c eq by simp
  qed
  moreover have "0 < mines g1" using e assms(5) by simp
  ultimately have "plantFrom 0 g1 ds \<noteq> Inr (l, ds2)" by (rule plantFrom_no_free_cell)
  with assms(4) show False by (simp add: plantMines_def)
qed

lemma zero_emote_token:
  assumes "built g"
  shows "mine (types g) = numbers (types g) ! 0 \<longleftrightarrow> emote g = ''zero''"
proof -
  have "numberNames ! 0 = ''zero''" by (simp add: numberNames_def)
  then show ?thesis using assms
    by (simp add: built_mine built_number[of g 0] spoilerizeWith_inject)
qed

text \<open>
  What the first two stages leave on a generator as constructed: \<open>L\<close> lists the cells that
  received a mine, the other cells hold the token of zero.
\<close>

lemma planted_layout:
  assumes g: "built g" "matrix g = []" "safeCells g = []" "0 \<le> rows g"
    and s: "generateEmptyMatrix g = Inr g1" "plantMines g1 ds = Inr (l, ds2)"
  obtains L where "rectangular l" "built l" "rows l = rows g" "columns l = columns g"
    "types l = types g" "safeCells l = []" "l = g\<lparr>matrix := matrix l\<rparr>"
    "distinct L" "int (length L) = max 0 (mines g)" "\<forall>p \<in> set L. inGrid l p \<and> mineAt l p"
    "\<forall>p. inGrid l p \<longrightarrow> p \<notin> set L \<longrightarrow> cellAt (matrix l) p = Some (numbers (types g) ! 0)"
proof -
  note e = generateEmptyMatrix_fresh[OF s(1) g(2,4)]
  have g1: "g1 = g\<lparr>matrix := matrix g1\<rparr>"
    using generateRows_result[OF s(1)[unfolded generateEmptyMatrix_def]] by simp
  from e have r1: "rectangular g1" by simp
  from plantFrom_result[OF s(2)[unfolded plantMines_def] r1] obtain L where
    L: "distinct L" "int (length L) = max 0 (mines g1 - 0)"
      "\<forall>p \<in> set L. inGrid g1 p \<and> \<not> mineAt g1 p \<and> mineAt l p"
      "\<forall>p. p \<notin> set L \<longrightarrow> cellAt (matrix l) p = cellAt (matrix g1) p"
      "rectangular l" and l: "l = g1\<lparr>matrix := matrix l\<rparr>" by blast
  have f: "rows l = rows g" "columns l = columns g" "types l = types g" "safeCells l = []" "mines g1 = mines g"
    using arg_cong[OF l, of rows] arg_cong[OF l, of columns] arg_cong[OF l, of types]
      arg_cong[OF l, of safeCells] e g(3) by simp_all
  have b: "built l" by (subst l, subst g1) (simp add: g(1))
  from e have e1: "rows g1 = rows g" "columns g1 = columns g" by simp_all
  have same: "inGrid l = inGrid g" "inGrid g1 = inGrid g"
    by (rule inGrid_cong[OF f(1,2)], rule inGrid_cong[OF e1])
  have "\<forall>p \<in> set L. inGrid l p \<and> mineAt l p" using L(3) same by simp
  moreover have "\<forall>p. inGrid l p \<longrightarrow> p \<notin> set L \<longrightarrow> cellAt (matrix l) p = Some (numbers (types g) ! 0)"
    using L(4) e same by simp
  moreover have "int (length L) = max 0 (mines g)" using L(2) f(5) by simp
  moreover have "l = g\<lparr>matrix := matrix l\<rparr>" by (rule trans[OF l]) (subst g1, simp)
  ultimately show thesis using that[OF L(5) b f(1,2,3,4) _ L(1)] by blast
qed

lemma planted_mines:
  assumes "types l = types g" "mine (types g) \<noteq> numbers (types g) ! 0"
    and "\<forall>p \<in> set L. inGrid l p \<and> mineAt l p"
    and "\<forall>p. inGrid l p \<longrightarrow> p \<notin> set L \<longrightarrow> cellAt (matrix l) p = Some (numbers (types g) ! 0)"
  shows "set L = {p. inGrid l p \<and> mineAt l p}"
proof (intro equalityI subsetI)
  fix p assume "p \<in> set L"
  with assms(3) show "p \<in> {p. inGrid l p \<and> mineAt l p}" by simp
next
  fix p assume p: "p \<in> {p. inGrid l p \<and> mineAt l p}"
  show "p \<in> set L"
  proof (rule ccontr)
    assume "p \<notin> set L"
    with assms(4) p have "cellAt (matrix l) p = Some (numbers (types g) ! 0)" by blast
    with p assms(1,2) show False by (simp add: mineAt_def)
  qed
qed


subsection \<open>The validity gate and the run behind it\<close>









text \<open>
  The other conditions of the theorem are needed as well: \<open>new Array(columns)\<close> throws from
  \<open>2^32\<close> columns on, and with a mine count below zero and the mine symbol \<open>zero\<close> every cell
  counts as a mine, the registry stays empty and \<open>revealFirst\<close> reads a property of
  \<open>undefined\<close>.
\<close>

lemma start_throws_elsewhere:
  "start (constructor (Some (small 1 4294967296 1))) [0, 0] = Inl RangeError"
  "start (constructor (Some ((small 2 2 (- 1))\<lparr>opt_emote := Some ''zero'',
                                               opt_revealFirstCell := Some True\<rparr>))) [0] = Inl TypeError"
  by code_simp+

subsection \<open>The grid and the registry of a first run\<close>




subsection \<open>Counting the cells of the final grid\<close>

lemma row_card:
  "finite {j. \<exists>t. elemAt row j = Some t \<and> P t}"
  "card {j. \<exists>t. elemAt row j = Some t \<and> P t} = length (filter P row)"
proof -
  have eq: "{j. \<exists>t. elemAt row j = Some t \<and> P t} = int ` {i. i < length row \<and> P (row ! i)}"
  proof (intro equalityI subsetI)
    fix j assume "j \<in> {j. \<exists>t. elemAt row j = Some t \<and> P t}"
    then have "0 \<le> j" "nat j < length row" "P (row ! nat j)" by (auto simp: elemAt_eq_Some)
    then have "nat j \<in> {i. i < length row \<and> P (row ! i)}" "j = int (nat j)" by simp_all
    then show "j \<in> int ` {i. i < length row \<and> P (row ! i)}" by (rule image_eqI[rotated])
  next
    fix j assume "j \<in> int ` {i. i < length row \<and> P (row ! i)}"
    then show "j \<in> {j. \<exists>t. elemAt row j = Some t \<and> P t}" by (auto simp: elemAt_eq_Some)
  qed
  show "finite {j. \<exists>t. elemAt row j = Some t \<and> P t}" unfolding eq by simp
  have "card (int ` {i. i < length row \<and> P (row ! i)}) = card {i. i < length row \<and> P (row ! i)}"
    by (intro card_image) (simp add: inj_on_def)
  then show "card {j. \<exists>t. elemAt row j = Some t \<and> P t} = length (filter P row)"
    unfolding eq by (simp add: length_filter_conv_card)
qed

lemma elemAt_snoc:
  "elemAt (m @ [row]) i = (if i = int (length m) then Some row else elemAt m i)"
  by (auto simp: elemAt_def nth_append)

lemma countCells_card:
  "finite {p. \<exists>t. cellAt m p = Some t \<and> P t}"
  "countCells P m = card {p. \<exists>t. cellAt m p = Some t \<and> P t}"
proof -
  have "finite {p. \<exists>t. cellAt m p = Some t \<and> P t} \<and>
        countCells P m = card {p. \<exists>t. cellAt m p = Some t \<and> P t}"
  proof (induction m rule: rev_induct)
    case Nil
    have "cellAt [] p = None" for p by (simp add: cellAt_def elemAt_def)
    then have e: "{p. \<exists>t. cellAt [] p = Some t \<and> P t} = {}" by simp
    show ?case unfolding e by (simp add: countCells_def)
  next
    case (snoc row m)
    let ?old = "{p. \<exists>t. cellAt m p = Some t \<and> P t}"
    let ?new = "(\<lambda>j. (int (length m), j)) ` {j. \<exists>t. elemAt row j = Some t \<and> P t}"
    have split: "{p. \<exists>t. cellAt (m @ [row]) p = Some t \<and> P t} = ?old \<union> ?new"
    proof (intro equalityI subsetI)
      fix p assume "p \<in> {p. \<exists>t. cellAt (m @ [row]) p = Some t \<and> P t}"
      then obtain t where t: "cellAt (m @ [row]) p = Some t" "P t" by blast
      show "p \<in> ?old \<union> ?new"
      proof (cases "fst p = int (length m)")
        case True
        with t have "elemAt row (snd p) = Some t" by (simp add: cellAt_def elemAt_snoc)
        with t(2) have "snd p \<in> {j. \<exists>t. elemAt row j = Some t \<and> P t}" by blast
        moreover have "p = (int (length m), snd p)" using True by (cases p) simp
        ultimately have "p \<in> ?new" by (rule image_eqI[rotated])
        then show ?thesis ..
      next
        case False
        with t have "cellAt m p = Some t" by (simp add: cellAt_def elemAt_snoc)
        with t(2) show ?thesis by blast
      qed
    next
      fix p assume "p \<in> ?old \<union> ?new"
      then show "p \<in> {p. \<exists>t. cellAt (m @ [row]) p = Some t \<and> P t}"
      proof
        assume "p \<in> ?old"
        then obtain t where t: "cellAt m p = Some t" "P t" by blast
        from cellAt_SomeD[OF t(1)] have "fst p \<noteq> int (length m)" by (auto simp: elemAt_eq_Some)
        with t show ?thesis by (simp add: cellAt_def elemAt_snoc)
      next
        assume "p \<in> ?new"
        then show ?thesis by (auto simp: cellAt_def elemAt_snoc)
      qed
    qed
    have disjoint: "?old \<inter> ?new = {}"
    proof -
      have "\<forall>p \<in> ?old. fst p \<noteq> int (length m)"
      proof
        fix p assume "p \<in> ?old"
        then obtain t where "cellAt m p = Some t" by blast
        from cellAt_SomeD[OF this] show "fst p \<noteq> int (length m)" by (auto simp: elemAt_eq_Some)
      qed
      moreover have "\<forall>p \<in> ?new. fst p = int (length m)" by auto
      ultimately show ?thesis by blast
    qed
    have fin: "finite ?new" using row_card(1)[of row P] by simp
    have "card ?new = card {j. \<exists>t. elemAt row j = Some t \<and> P t}"
      by (intro card_image) (simp add: inj_on_def)
    then have new: "card ?new = length (filter P row)" by (simp add: row_card(2))
    have "countCells P (m @ [row]) = countCells P m + length (filter P row)"
      by (simp add: countCells_def)
    also have "\<dots> = card ?old + card ?new" using snoc new by simp
    also have "\<dots> = card (?old \<union> ?new)" using snoc fin disjoint by (simp add: card_Un_disjoint)
    finally have "countCells P (m @ [row]) = card {p. \<exists>t. cellAt (m @ [row]) p = Some t \<and> P t}"
      unfolding split .
    moreover have "finite {p. \<exists>t. cellAt (m @ [row]) p = Some t \<and> P t}"
      unfolding split using snoc fin by simp
    ultimately show ?case by simp
  qed
  then show "finite {p. \<exists>t. cellAt m p = Some t \<and> P t}"
    and "countCells P m = card {p. \<exists>t. cellAt m p = Some t \<and> P t}" by simp_all
qed


lemma mine_not_number_token:
  assumes "built g" "emote g \<notin> set numberNames"
  shows "mine (types g) \<notin> set (numbers (types g))"
    and "mine (types g) \<notin> set (map slice (numbers (types g)))"
proof -
  have n: "numbers (types g) = map (spoilerizeWith (spaces g)) numberNames"
    using assms(1) by (simp add: built_def spoilerize_def)
  have m: "mine (types g) = spoilerizeWith (spaces g) (emote g)" using assms(1) by (rule built_mine)
  show "mine (types g) \<notin> set (numbers (types g))"
  proof
    assume "mine (types g) \<in> set (numbers (types g))"
    then obtain k where "k \<in> set numberNames" "spoilerizeWith (spaces g) (emote g) = spoilerizeWith (spaces g) k"
      unfolding n m by auto
    with assms(2) show False by (simp add: spoilerizeWith_inject)
  qed
  show "mine (types g) \<notin> set (map slice (numbers (types g)))"
  proof
    assume "mine (types g) \<in> set (map slice (numbers (types g)))"
    then obtain k where k: "k \<in> set numberNames"
      and e: "spoilerizeWith (spaces g) (emote g) = slice (spoilerizeWith (spaces g) k)"
      unfolding n m by auto
    have "isSpoiler (spoilerizeWith (spaces g) (emote g))" by (rule isSpoiler_spoilerizeWith)
    with e number_revealed_not_spoiler[OF k] show False by simp
  qed
qed

lemma number_tokens_nth:
  assumes "built g"
  shows "t \<in> set (numbers (types g)) \<or> t \<in> set (map slice (numbers (types g))) \<longleftrightarrow>
         (\<exists>k \<le> 8. t = numbers (types g) ! k \<or> t = slice (numbers (types g) ! k))"
proof -
  have len: "length (numbers (types g)) = 9"
    using assms by (simp add: built_def length_numberNames)
  have le: "k \<le> 8 \<longleftrightarrow> k < length (numbers (types g))" for k unfolding len by auto
  show ?thesis
  proof
    assume "t \<in> set (numbers (types g)) \<or> t \<in> set (map slice (numbers (types g)))"
    then show "\<exists>k \<le> 8. t = numbers (types g) ! k \<or> t = slice (numbers (types g) ! k)"
    proof
      assume "t \<in> set (numbers (types g))"
      then obtain k where "k < length (numbers (types g))" "numbers (types g) ! k = t"
        by (auto simp: in_set_conv_nth)
      then show ?thesis using le by blast
    next
      assume "t \<in> set (map slice (numbers (types g)))"
      then obtain u where "u \<in> set (numbers (types g))" "t = slice u" by auto
      then obtain k where "k < length (numbers (types g))" "t = slice (numbers (types g) ! k)"
        by (auto simp: in_set_conv_nth)
      then show ?thesis using le by blast
    qed
  next
    assume "\<exists>k \<le> 8. t = numbers (types g) ! k \<or> t = slice (numbers (types g) ! k)"
    then obtain k where k: "k < length (numbers (types g))"
      and t: "t = numbers (types g) ! k \<or> t = slice (numbers (types g) ! k)" using le by blast
    from k have "numbers (types g) ! k \<in> set (numbers (types g))" by (rule nth_mem)
    with t show "t \<in> set (numbers (types g)) \<or> t \<in> set (map slice (numbers (types g)))" by auto
  qed
qed

subsection \<open>Mines and counts of a generated board\<close>

text \<open>
  C1, as the code has it: when \<open>start\<close> returns a board on a generator as constructed, with
  at least one row and one column, a mine count that is not negative and a mine symbol that
  is none of the names \<open>one\<close> to \<open>eight\<close> (with \<open>zero\<close> no board is returned), the grid has
  \<open>rows\<close> rows of \<open>columns\<close> cells; exactly \<open>mines\<close> of them hold the mine token, and they are
  the cells where \<open>plantMines\<close> placed a mine; the other \<open>rows * columns - mines\<close> cells hold
  the token of a count from 0 to 8, masked or unmasked; no cell holds both.
\<close>

theorem generated_board_holds_mines_and_counts:
  assumes "1 \<le> rows (constructor opts)" "1 \<le> columns (constructor opts)" "0 \<le> mines (constructor opts)"
    and "emote (constructor opts) \<notin> set (tl numberNames)"
    and "start (constructor opts) ds = Inr (out, g', ds')" "out \<noteq> Null"
  shows "rectangular g' \<and> rows g' = rows (constructor opts) \<and> columns g' = columns (constructor opts) \<and>
     mineTokens g' = nat (mines (constructor opts)) \<and>
     numberTokens g' = nat (rows (constructor opts) * columns (constructor opts) - mines (constructor opts)) \<and>
     (\<forall>p. inGrid g' p \<longrightarrow>
        (\<exists>t. cellAt (matrix g') p = Some t \<and>
           (t = mine (types g')) \<noteq>
           (\<exists>k \<le> 8. t = numbers (types g') ! k \<or> t = slice (numbers (types g') ! k)))) \<and>
     (\<exists>g1 l ds2. generateEmptyMatrix (constructor opts) = Inr g1 \<and> plantMines g1 ds = Inr (l, ds2) \<and>
        (\<forall>p. inGrid g' p \<longrightarrow> (cellAt (matrix g') p = Some (mine (types g'))) = mineAt l p))"
proof -
  let ?g = "constructor opts"
  note fresh = constructor_fresh(1,2)[of opts] and bg = built_constructor[of opts]
  have pos: "0 < mines ?g" using assms(3) constructor_fresh(3)[of opts] by simp
  from assms(1) have r0: "0 \<le> rows ?g" by simp
  from assms(5) gate_open[OF assms(5,6)] obtain g1 l ds2 g3 c where
    s: "generateEmptyMatrix ?g = Inr g1" "plantMines g1 ds = Inr (l, ds2)" "populate l = Inr g3"
      "revealFirst g3 ds2 = Inr (c, g', ds')"
    by (rule start_stages)
  from bg fresh r0 s(1,2) obtain L where l: "rectangular l" "built l" "rows l = rows ?g"
    "columns l = columns ?g" "types l = types ?g" "safeCells l = []"
    and L: "distinct L" "int (length L) = max 0 (mines ?g)" "\<forall>p \<in> set L. inGrid l p \<and> mineAt l p"
      "\<forall>p. inGrid l p \<longrightarrow> p \<notin> set L \<longrightarrow> cellAt (matrix l) p = Some (numbers (types ?g) ! 0)"
    by (rule planted_layout)
  from s(1) fresh(1) r0 s(2) pos have differ: "mine (types ?g) \<noteq> numbers (types ?g) ! 0"
    by (rule planted_tokens_differ)
  from l(5) differ L(3,4) have exact: "set L = {p. inGrid l p \<and> mineAt l p}" by (rule planted_mines)
  have "numberNames = ''zero'' # tl numberNames" by (simp add: numberNames_def)
  moreover have "emote ?g \<noteq> ''zero''" using differ zero_emote_token[OF bg] by simp
  ultimately have "emote ?g \<notin> set numberNames" using assms(4) by (metis set_ConsD)
  note apart = mine_not_number_token[OF bg this]
  from revealFirst_state(1)[OF l(1,2,6) s(3,4)] have ls: "layoutState l g'"
    and masked: "\<And>p. inGrid l p \<Longrightarrow> mineAt l p \<Longrightarrow> cellAt (matrix g') p = Some (annotate l p)"
    unfolding minesMasked_def by blast+
  from ls have f: "rows g' = rows l" "columns g' = columns l" "types g' = types l" "rectangular g'"
    and cells: "\<And>p. inGrid l p \<Longrightarrow>
        cellAt (matrix g') p = Some (annotate l p) \<or> cellAt (matrix g') p = Some (slice (annotate l p))"
    unfolding layoutState_def by blast+
  have tg: "types g' = types ?g" by (simp add: f(3) l(5))
  have bg': "built g'"
  proof -
    have "g' = ?g\<lparr>safeCells := safeCells g', matrix := matrix g'\<rparr>" using assms(5) by (rule start_fields)
    then have "built g' = built (?g\<lparr>safeCells := safeCells g', matrix := matrix g'\<rparr>)" by simp
    with bg show ?thesis by simp
  qed
  note nth = number_tokens_nth[OF bg']
  let ?isN = "\<lambda>t. t \<in> set (numbers (types g')) \<or> t \<in> set (map slice (numbers (types g')))"
  have notN: "\<not> ?isN (mine (types g'))" using apart by (simp add: tg)
  have same: "inGrid g' = inGrid l" by (rule inGrid_cong[OF f(1,2)])
  have inside: "inGrid l p" if "cellAt (matrix g') p = Some t" for p t
    using that rectangular_cellAt[OF f(4), of p] by (simp add: same)
  have at_mine: "cellAt (matrix g') p = Some (mine (types g'))" if "p \<in> set L" for p
  proof -
    from that L(3) have p: "inGrid l p" "mineAt l p" by simp_all
    from masked[OF p] p(2) show ?thesis by (simp add: annotate_def f(3))
  qed
  have at_number: "\<exists>t. cellAt (matrix g') p = Some t \<and> ?isN t" if "inGrid l p" "p \<notin> set L" for p
  proof -
    from that exact have nm: "\<not> mineAt l p" by blast
    then have a: "annotate l p = numbers (types g') ! mineCount l p" by (simp add: annotate_def f(3))
    from cells[OF that(1)] obtain t where t: "cellAt (matrix g') p = Some t"
      "t = numbers (types g') ! mineCount l p \<or> t = slice (numbers (types g') ! mineCount l p)"
      unfolding a by blast
    from t(2) mineCount_le[of l p] have "?isN t" unfolding nth by blast
    with t(1) show ?thesis by blast
  qed
  have mine_set: "{p. \<exists>t. cellAt (matrix g') p = Some t \<and> t = mine (types g')} = set L"
  proof (intro equalityI subsetI)
    fix p assume "p \<in> {p. \<exists>t. cellAt (matrix g') p = Some t \<and> t = mine (types g')}"
    then have c: "cellAt (matrix g') p = Some (mine (types g'))" by simp
    show "p \<in> set L"
    proof (rule ccontr)
      assume "p \<notin> set L"
      from at_number[OF inside[OF c] this] c notN show False by simp
    qed
  next
    fix p assume "p \<in> set L"
    then show "p \<in> {p. \<exists>t. cellAt (matrix g') p = Some t \<and> t = mine (types g')}"
      using at_mine by simp
  qed
  have number_set: "{p. \<exists>t. cellAt (matrix g') p = Some t \<and> ?isN t} = {p. inGrid l p} - set L"
  proof (intro equalityI subsetI)
    fix p assume "p \<in> {p. \<exists>t. cellAt (matrix g') p = Some t \<and> ?isN t}"
    then obtain t where t: "cellAt (matrix g') p = Some t" "?isN t" by blast
    have "p \<notin> set L"
    proof
      assume "p \<in> set L"
      from at_mine[OF this] t notN show False by simp
    qed
    with inside[OF t(1)] show "p \<in> {p. inGrid l p} - set L" by simp
  next
    fix p assume "p \<in> {p. inGrid l p} - set L"
    then show "p \<in> {p. \<exists>t. cellAt (matrix g') p = Some t \<and> ?isN t}"
      using at_number by simp
  qed
  have count: "int (length L) = mines ?g" using L(2) pos by simp
  have mines_counted: "mineTokens g' = nat (mines ?g)"
  proof -
    have "mineTokens g' = card (set L)"
      unfolding mineTokens_def countCells_card(2) mine_set ..
    also have "\<dots> = length L" using L(1) by (rule distinct_card)
    finally show ?thesis using count by simp
  qed
  have numbers_counted: "numberTokens g' = nat (rows ?g * columns ?g - mines ?g)"
  proof -
    have "numberTokens g' = card ({p. inGrid l p} - set L)"
      unfolding numberTokens_def countCells_card(2) number_set ..
    moreover have "set L \<subseteq> {p. inGrid l p}" using L(3) by auto
    ultimately have "numberTokens g' = card {p. inGrid l p} - card (set L)"
      by (simp add: card_Diff_subset)
    also have "\<dots> = nat (rows ?g) * nat (columns ?g) - length L"
      using L(1) by (simp add: card_grid distinct_card l(3,4))
    also have "length L = nat (mines ?g)" using count by simp
    also have "nat (rows ?g) * nat (columns ?g) = nat (rows ?g * columns ?g)"
      using r0 by (simp add: nat_mult_distrib)
    also have "nat (rows ?g * columns ?g) - nat (mines ?g) = nat (rows ?g * columns ?g - mines ?g)"
      using pos by (simp add: nat_diff_distrib')
    finally show ?thesis .
  qed
  have each: "\<forall>p. inGrid g' p \<longrightarrow>
        (\<exists>t. cellAt (matrix g') p = Some t \<and>
           (t = mine (types g')) \<noteq>
           (\<exists>k \<le> 8. t = numbers (types g') ! k \<or> t = slice (numbers (types g') ! k)))"
  proof (intro allI impI)
    fix p assume "inGrid g' p"
    then have p: "inGrid l p" by (simp add: same)
    show "\<exists>t. cellAt (matrix g') p = Some t \<and>
           (t = mine (types g')) \<noteq>
           (\<exists>k \<le> 8. t = numbers (types g') ! k \<or> t = slice (numbers (types g') ! k))"
    proof (cases "p \<in> set L")
      case True
      from at_mine[OF True] notN show ?thesis unfolding nth by blast
    next
      case False
      from at_number[OF p False] obtain t where t: "cellAt (matrix g') p = Some t" "?isN t" by blast
      from t(2) notN have "t \<noteq> mine (types g')" by blast
      with t show ?thesis unfolding nth by blast
    qed
  qed
  have placed: "\<forall>p. inGrid g' p \<longrightarrow> (cellAt (matrix g') p = Some (mine (types g'))) = mineAt l p"
  proof (intro allI impI)
    fix p assume "inGrid g' p"
    then have p: "inGrid l p" by (simp add: same)
    have "(cellAt (matrix g') p = Some (mine (types g'))) = (p \<in> set L)"
      using mine_set by blast
    with exact p show "(cellAt (matrix g') p = Some (mine (types g'))) = mineAt l p" by blast
  qed
  from s(1,2) placed
  have "\<exists>g1 l ds2. generateEmptyMatrix ?g = Inr g1 \<and> plantMines g1 ds = Inr (l, ds2) \<and>
        (\<forall>p. inGrid g' p \<longrightarrow> (cellAt (matrix g') p = Some (mine (types g'))) = mineAt l p)"
    by blast
  with f(4) f(1,2) l(3,4) mines_counted numbers_counted each show ?thesis by simp
qed


theorem generated_board_holds_mines_and_counts_witness:
  "1 \<le> rows (constructor (Some (small 2 2 1))) \<and> 1 \<le> columns (constructor (Some (small 2 2 1))) \<and>
   0 \<le> mines (constructor (Some (small 2 2 1))) \<and>
   emote (constructor (Some (small 2 2 1))) \<notin> set (tl numberNames) \<and>
   (\<exists>out g' ds'. start (constructor (Some (small 2 2 1))) [0, 0] = Inr (out, g', ds') \<and> out \<noteq> Null \<and>
      rectangular g' \<and> rows g' = 2 \<and> columns g' = 2 \<and> mineTokens g' = 1 \<and> numberTokens g' = 3)"
proof -
  let ?g = "constructor (Some (small 2 2 1))"
  let ?r = "projr (start ?g [0, 0])"
  have h: "1 \<le> rows ?g" "1 \<le> columns ?g" "0 \<le> mines ?g" "emote ?g \<notin> set (tl numberNames)"
    by code_simp+
  have d: "rows ?g = 2" "columns ?g = 2" "nat (mines ?g) = 1" "nat (rows ?g * columns ?g - mines ?g) = 3"
    by code_simp+
  have run: "start ?g [0, 0] = Inr (fst ?r, fst (snd ?r), snd (snd ?r))" by code_simp
  have out: "fst ?r \<noteq> Null" by code_simp
  from generated_board_holds_mines_and_counts[OF h run out]
  have t: "rectangular (fst (snd ?r))" "rows (fst (snd ?r)) = rows ?g" "columns (fst (snd ?r)) = columns ?g"
    "mineTokens (fst (snd ?r)) = nat (mines ?g)"
    "numberTokens (fst (snd ?r)) = nat (rows ?g * columns ?g - mines ?g)"
    by blast+
  have "rows (fst (snd ?r)) = 2" using t(2) d(1) by (rule trans)
  moreover have "columns (fst (snd ?r)) = 2" using t(3) d(2) by (rule trans)
  moreover have "mineTokens (fst (snd ?r)) = 1" using t(4) d(3) by (rule trans)
  moreover have "numberTokens (fst (snd ?r)) = 3" using t(5) d(4) by (rule trans)
  ultimately have "rectangular (fst (snd ?r)) \<and> rows (fst (snd ?r)) = 2 \<and> columns (fst (snd ?r)) = 2 \<and>
        mineTokens (fst (snd ?r)) = 1 \<and> numberTokens (fst (snd ?r)) = 3"
    using t(1) by (intro conjI)
  with run out have "\<exists>out g' ds'. start ?g [0, 0] = Inr (out, g', ds') \<and> out \<noteq> Null \<and>
      rectangular g' \<and> rows g' = 2 \<and> columns g' = 2 \<and> mineTokens g' = 1 \<and> numberTokens g' = 3" by blast
  with h show ?thesis by (intro conjI)
qed

text \<open>
  C1 as stated fails for a mine symbol that is the name of a count: with the symbol \<open>one\<close> on
  a board of 2 by 2 cells with one mine, the three cells next to the mine hold the token of
  the count 1, which is the mine token, and all four cells hold the mine token.
\<close>

theorem count_named_emote_fills_board_with_mine_tokens:
  "mines (constructor (Some ((small 2 2 1)\<lparr>opt_emote := Some ''one''\<rparr>))) = 1 \<and>
   map_sum id fst (start (constructor (Some ((small 2 2 1)\<lparr>opt_emote := Some ''one''\<rparr>))) [0, 0])
     = Inr (Str ''|| :one: || || :one: ||\<newline>|| :one: || || :one: ||'') \<and>
   map_sum id (mineTokens \<circ> fst \<circ> snd)
     (start (constructor (Some ((small 2 2 1)\<lparr>opt_emote := Some ''one''\<rparr>))) [0, 0]) = Inr 4"
  by code_simp

end
